theory Spec2Isabelle
  imports Main "HOL-Library.Sublist"
begin

section \<open>Bytes, strings and the telnet constants\<close>

text \<open>
  A Go \<^verbatim>\<open>string\<close> and a \<^verbatim>\<open>[]byte\<close> are sequences of 8-bit bytes; both are modelled
  by \<^typ>\<open>string\<close>, a list of 8-bit \<^typ>\<open>char\<close>.
\<close>

type_synonym byte = char

definition IAC :: byte where "IAC = CHR 0xFF"
definition WILL :: byte where "WILL = CHR 0xFB"
definition WONT :: byte where "WONT = CHR 0xFC"
definition DO :: byte where "DO = CHR 0xFD"
definition DONT :: byte where "DONT = CHR 0xFE"
definition SB :: byte where "SB = CHR 0xFA"
definition SE :: byte where "SE = CHR 0xF0"

lemmas telnet_consts = IAC_def WILL_def WONT_def DO_def DONT_def SB_def SE_def

text \<open>
  \<^verbatim>\<open>strings.Contains(s, substr)\<close> and \<^verbatim>\<open>bytes.Contains(b, subslice)\<close>: \<open>substr\<close> occurs in
  \<open>s\<close> as a contiguous run of bytes; the empty string occurs in every string.
\<close>

fun Contains :: "string \<Rightarrow> string \<Rightarrow> bool" where
  "Contains [] substr = (substr = [])"
| "Contains (x # xs) substr = (prefix substr (x # xs) \<or> Contains xs substr)"

text \<open>It is the contiguous-sublist relation of the library.\<close>

lemma Contains_iff_sublist: "Contains s substr \<longleftrightarrow> sublist substr s"
  by (induction s) (simp_all add: sublist_Cons_right)

section \<open>The connection\<close>

text \<open>
  The network is the environment of the probe. Every \<^verbatim>\<open>conn.Read(one)\<close> of the telnet
  package reads into a one-byte slice, so a call returns \<open>(n, err)\<close> with \<open>n\<close> 0 or 1: the
  result is the byte delivered, if any, and the error, if any. The record holds the
  outcome the dial will have, the results the successive reads will return, the results
  the successive writes will return, and the log of the calls made so far, in order.

  \<^verbatim>\<open>Run\<close> sets the caller's deadline on the connection before its first read, and only
  finitely many reads complete before a deadline: once the scripted results are used up,
  every read fails with the deadline error and delivers nothing. The results of the
  writes are scripted as well, and a write past the script succeeds: a write that is to
  fail, such as one made after the deadline has passed, has to be scripted as failing.
\<close>

datatype io_error = EOF | DeadlineExceeded | ConnReset

type_synonym read_result = "byte option \<times> io_error option"

datatype event =
    Dial string int
  | Rd read_result
  | Wr string "io_error option"
  | Close

record conn =
  dial_result :: "io_error option"
  inbound :: "read_result list"
  wresults :: "io_error option list"
  calls :: "event list"

definition Read :: "conn \<Rightarrow> read_result \<times> conn" where
  "Read c =
     (case inbound c of
        [] \<Rightarrow> ((None, Some DeadlineExceeded),
               c\<lparr>calls := calls c @ [Rd (None, Some DeadlineExceeded)]\<rparr>)
      | r # rs \<Rightarrow> (r, c\<lparr>inbound := rs, calls := calls c @ [Rd r]\<rparr>))"

definition Write :: "conn \<Rightarrow> string \<Rightarrow> io_error option \<times> conn" where
  "Write c bs =
     (case wresults c of
        [] \<Rightarrow> (None, c\<lparr>calls := calls c @ [Wr bs None]\<rparr>)
      | r # rs \<Rightarrow> (r, c\<lparr>wresults := rs, calls := calls c @ [Wr bs r]\<rparr>))"

text \<open>
  The content of a one-byte slice after a read into it: the byte delivered, or what the
  slice held before when the read delivered nothing.
\<close>

definition slice_after :: "byte \<Rightarrow> read_result \<Rightarrow> byte" where
  "slice_after old r = (case fst r of Some b \<Rightarrow> b | None \<Rightarrow> old)"

lemma Read_length_le: "length (inbound (snd (Read c))) \<le> length (inbound c)"
  by (simp add: Read_def split: list.splits)

lemma Read_ok_shorter:
  "(r, c1) = Read c \<Longrightarrow> snd r = None \<Longrightarrow> length (inbound c1) < length (inbound c)"
  by (auto simp: Read_def split: list.splits)

lemma Read_byte_shorter:
  "(r, c1) = Read c \<Longrightarrow> fst r = Some b \<Longrightarrow> length (inbound c1) < length (inbound c)"
  by (auto simp: Read_def split: list.splits)

lemma Write_inbound [simp]: "inbound (snd (Write c bs)) = inbound c"
  by (simp add: Write_def split: list.splits)

section \<open>The option negotiation filter\<close>

text \<open>
  The subnegotiation loop of \<^verbatim>\<open>handleIAC\<close> (case \<^verbatim>\<open>SB\<close>): read until \<^verbatim>\<open>IAC SE\<close>. The
  slice \<^verbatim>\<open>one\<close> is allocated once before the loop, so its content is carried from one
  read to the next. The loop ends at \<^verbatim>\<open>IAC SE\<close> or at the first read error; either way
  \<^verbatim>\<open>handleIAC\<close> returns true, so only the connection is returned.
\<close>

function subnegotiation :: "byte \<Rightarrow> conn \<Rightarrow> conn" where
  "subnegotiation one c =
     (case Read c of
        (r1, c1) \<Rightarrow>
          (case snd r1 of
             Some e \<Rightarrow> c1
           | None \<Rightarrow>
               (let one1 = slice_after one r1 in
                if one1 = IAC then
                  (case Read c1 of
                     (r2, c2) \<Rightarrow>
                       (case snd r2 of
                          Some e \<Rightarrow> c2
                        | None \<Rightarrow>
                            (let one2 = slice_after one1 r2 in
                             if one2 = SE then c2 else subnegotiation one2 c2)))
                else subnegotiation one1 c1)))"
  by pat_completeness auto
termination
proof (relation "measure (\<lambda>(one, c). length (inbound c))")
qed (auto dest!: Read_ok_shorter)

lemma subnegotiation_length: "length (inbound (subnegotiation one c)) \<le> length (inbound c)"
proof (induction one c rule: subnegotiation.induct)
  case (1 one c)
  obtain r1 c1 where r1: "Read c = (r1, c1)" by (cases "Read c")
  obtain r2 c2 where r2: "Read c1 = (r2, c2)" by (cases "Read c1")
  have l1: "length (inbound c1) \<le> length (inbound c)"
    using Read_length_le [of c] r1 by simp
  have l2: "length (inbound c2) \<le> length (inbound c1)"
    using Read_length_le [of c1] r2 by simp
  show ?case
  proof (cases "snd r1")
    case (Some e)
    then show ?thesis using r1 l1 by (subst subnegotiation.simps) simp
  next
    case None
    note n1 = None
    show ?thesis
    proof (cases "slice_after one r1 = IAC")
      case False
      have "length (inbound (subnegotiation (slice_after one r1) c1)) \<le> length (inbound c1)"
        using "1.IH"(2) [OF r1 [symmetric] n1 refl False] .
      then show ?thesis using r1 n1 False l1 by (subst subnegotiation.simps) simp
    next
      case True
      show ?thesis
      proof (cases "snd r2")
        case (Some e)
        then show ?thesis using r1 r2 n1 True l1 l2 by (subst subnegotiation.simps) simp
      next
        case None
        note n2 = None
        show ?thesis
        proof (cases "slice_after (slice_after one r1) r2 = SE")
          case True
          then show ?thesis using r1 r2 n1 n2 \<open>slice_after one r1 = IAC\<close> l1 l2
            by (subst subnegotiation.simps) simp
        next
          case False
          have "length (inbound (subnegotiation (slice_after (slice_after one r1) r2) c2))
                  \<le> length (inbound c2)"
            using "1.IH"(1) [OF r1 [symmetric] n1 refl True r2 [symmetric] n2 refl False] .
          then show ?thesis using r1 r2 n1 n2 True False l1 l2
            by (subst subnegotiation.simps) simp
        qed
      qed
    qed
  qed
qed

text \<open>
  \<^verbatim>\<open>handleIAC(conn, firstByte)\<close>: reads the rest of an IAC sequence and sends the
  refusal. A slice made by \<^verbatim>\<open>make([]byte, 1)\<close> holds the zero byte until a read delivers a
  byte into it. The reads of the option byte (cases \<^verbatim>\<open>DO\<close>, \<^verbatim>\<open>WILL\<close>, \<^verbatim>\<open>WONT\<close>, \<^verbatim>\<open>DONT\<close>)
  drop their error result, and the result of \<^verbatim>\<open>conn.Write\<close> is dropped.
\<close>

definition handleIAC :: "conn \<Rightarrow> byte \<Rightarrow> bool \<times> conn" where
  "handleIAC c firstByte =
     (if firstByte \<noteq> IAC then (False, c)
      else
        (case Read c of
           (r, c1) \<Rightarrow>
             (case snd r of
                Some e \<Rightarrow> (True, c1)
              | None \<Rightarrow>
                  (let cmd = slice_after (CHR 0x00) r in
                   if cmd = DO then
                     (case Read c1 of
                        (ro, c2) \<Rightarrow>
                          (True, snd (Write c2 [IAC, WONT, slice_after (CHR 0x00) ro])))
                   else if cmd = WILL then
                     (case Read c1 of
                        (ro, c2) \<Rightarrow>
                          (True, snd (Write c2 [IAC, DONT, slice_after (CHR 0x00) ro])))
                   else if cmd = WONT \<or> cmd = DONT then (True, snd (Read c1))
                   else if cmd = SB then (True, subnegotiation (CHR 0x00) c1)
                   else (True, c1)))))"

lemma handleIAC_length: "length (inbound (snd (handleIAC c b))) \<le> length (inbound c)"
proof -
  obtain r c1 where r: "Read c = (r, c1)" by (cases "Read c")
  obtain ro c2 where ro: "Read c1 = (ro, c2)" by (cases "Read c1")
  have l1: "length (inbound c1) \<le> length (inbound c)"
    using Read_length_le [of c] r by simp
  have l2: "length (inbound c2) \<le> length (inbound c1)"
    using Read_length_le [of c1] ro by simp
  have l3: "length (inbound (subnegotiation (CHR 0x00) c1)) \<le> length (inbound c1)"
    by (rule subnegotiation_length)
  show ?thesis
    using r ro l1 l2 l3 by (simp add: handleIAC_def Let_def split: option.splits)
qed

lemma handleIAC_shorter:
  "(handled, c2) = handleIAC c1 b \<Longrightarrow> length (inbound c2) \<le> length (inbound c1)"
  using handleIAC_length [of c1 b] by (metis snd_conv)

section \<open>The prompt matcher\<close>

text \<open>
  The errors the two packages return, one constructor for each message they format; an
  error that wraps another (\<^verbatim>\<open>%w\<close>, \<^verbatim>\<open>%v\<close>) carries it. \<open>ReadError\<close> is
  "read error waiting for [targets]: err", \<open>DeadlineNotSet\<close> is "context deadline is not
  set", \<open>OutputMismatch\<close> is "failed: outputs do not match; got: ...", \<open>TcpDialFailed\<close> is
  "tcp dial failed", \<open>LoginFailed\<close> is "Login failed" and \<open>UnexpectedOutput\<close> is "expected
  output ... but got ...". \<open>UnmarshalError\<close> stands for what the decoder reports.
\<close>

datatype error =
    UnmarshalError string
  | DeadlineNotSet
  | DialError string int io_error
  | ReadError "string list" io_error
  | LoginPromptError error
  | SendUsernameError io_error
  | PasswordPromptError error
  | SendPasswordError io_error
  | ShellPromptError error
  | SendCommandError io_error
  | CommandOutputError error
  | OutputMismatch string
  | TcpDialFailed
  | LoginFailed
  | UnexpectedOutput string string

text \<open>
  The \<^verbatim>\<open>for\<close> loop of \<^verbatim>\<open>readUntilAny\<close>, from the content \<open>buf\<close> of its buffer. A read that
  delivers a byte hands it to \<^verbatim>\<open>handleIAC\<close>; when the filter handled it the loop continues
  (the error of that read, if any, is dropped with it); otherwise the byte is appended and
  the whole buffer is scanned for each target in list order. The error of the read is
  looked at only after that.
\<close>

function readUntilAny_loop ::
  "string list \<Rightarrow> string \<Rightarrow> conn \<Rightarrow> (string \<times> error option) \<times> conn" where
  "readUntilAny_loop targets buf c =
     (case Read c of
        (r, c1) \<Rightarrow>
          (case fst r of
             Some b \<Rightarrow>
               (case handleIAC c1 b of
                  (handled, c2) \<Rightarrow>
                    if handled then readUntilAny_loop targets buf c2
                    else
                      (let s = buf @ [b] in
                       if list_ex (Contains s) targets then ((s, None), c2)
                       else
                         (case snd r of
                            Some e \<Rightarrow> ((s, Some (ReadError targets e)), c2)
                          | None \<Rightarrow> readUntilAny_loop targets s c2)))
           | None \<Rightarrow>
               (case snd r of
                  Some e \<Rightarrow> ((buf, Some (ReadError targets e)), c1)
                | None \<Rightarrow> readUntilAny_loop targets buf c1)))"
  by pat_completeness auto
termination
  apply (relation "measure (\<lambda>(targets, buf, c). length (inbound c))")
  apply simp
  apply (auto dest: Read_ok_shorter)[1]
  subgoal for targets buf c r c1 b handled c2
    using Read_byte_shorter [of r c1 c b] handleIAC_shorter [of handled c2 c1 b] by simp
  subgoal for targets buf c r c1 b handled c2
    using Read_byte_shorter [of r c1 c b] handleIAC_shorter [of handled c2 c1 b] by simp
  done

text \<open>\<^verbatim>\<open>readUntilAny(conn, targets)\<close>: the loop, from the empty buffer it declares.\<close>

definition readUntilAny :: "conn \<Rightarrow> string list \<Rightarrow> (string \<times> error option) \<times> conn" where
  "readUntilAny c targets = readUntilAny_loop targets [] c"

section \<open>The option-aware probe (package telnet)\<close>

record Schema =
  Server :: string
  Port :: int
  Username :: string
  Password :: string
  Command :: string
  ExpectedOutput :: string

definition CRLF :: string where "CRLF = [CHR 0x0D, CHR 0x0A]"

text \<open>\<^verbatim>\<open>sendLine(conn, line)\<close>: one write of the line followed by CR LF.\<close>

definition sendLine :: "conn \<Rightarrow> string \<Rightarrow> io_error option \<times> conn" where
  "sendLine c line = Write c (line @ CRLF)"

text \<open>
  \<^verbatim>\<open>dialer.DialContext(ctx, "tcp", connStr)\<close> with \<^verbatim>\<open>connStr\<close> formatted from the server and
  the port (the log keeps the two), and the deferred \<^verbatim>\<open>conn.Close()\<close>.
\<close>

definition DialContext :: "conn \<Rightarrow> string \<Rightarrow> int \<Rightarrow> io_error option \<times> conn" where
  "DialContext net server port = (dial_result net, net\<lparr>calls := calls net @ [Dial server port]\<rparr>)"

definition CloseConn :: "conn \<Rightarrow> conn" where
  "CloseConn c = c\<lparr>calls := calls c @ [Close]\<rparr>"

text \<open>
  Steps 1 to 5 of \<^verbatim>\<open>Run\<close> on the open connection (lines 178 to 213): the result is the
  error \<^verbatim>\<open>Run\<close> returns from there, or \<^verbatim>\<open>cmdOutput\<close>, the buffer the last wait returned.
\<close>

definition exchange :: "Schema \<Rightarrow> conn \<Rightarrow> (error + string) \<times> conn" where
  "exchange conf c =
     (case readUntilAny c [''ogin:''] of
        ((_, Some err), c1) \<Rightarrow> (Inl (LoginPromptError err), c1)
      | ((_, None), c1) \<Rightarrow>
     (case sendLine c1 (Username conf) of
        (Some err, c2) \<Rightarrow> (Inl (SendUsernameError err), c2)
      | (None, c2) \<Rightarrow>
     (case readUntilAny c2 [''assword:''] of
        ((_, Some err), c3) \<Rightarrow> (Inl (PasswordPromptError err), c3)
      | ((_, None), c3) \<Rightarrow>
     (case sendLine c3 (Username conf) of
        (Some err, c4) \<Rightarrow> (Inl (SendPasswordError err), c4)
      | (None, c4) \<Rightarrow>
     (case readUntilAny c4 [''$ '', ''# ''] of
        ((_, Some err), c5) \<Rightarrow> (Inl (ShellPromptError err), c5)
      | ((_, None), c5) \<Rightarrow>
     (case sendLine c5 (Command conf) of
        (Some err, c6) \<Rightarrow> (Inl (SendCommandError err), c6)
      | (None, c6) \<Rightarrow>
     (case readUntilAny c6 [''$ '', ''# ''] of
        ((_, Some err), c7) \<Rightarrow> (Inl (CommandOutputError err), c7)
      | ((cmdOutput, None), c7) \<Rightarrow> (Inr cmdOutput, c7))))))))"

text \<open>
  \<^verbatim>\<open>Run(ctx, config)\<close> of package telnet. The decoder \<^verbatim>\<open>schema.Unmarshal\<close> is a library
  outside the repository: it is a parameter, and returns its error or the record. Of the
  context only its deadline is used. The result is the error returned (\<open>None\<close> for
  \<^verbatim>\<open>nil\<close>) and the network with the log of the calls made.
\<close>

definition Run ::
  "(string \<Rightarrow> error + Schema) \<Rightarrow> nat option \<Rightarrow> string \<Rightarrow> conn \<Rightarrow> error option \<times> conn" where
  "Run Unmarshal ctx_deadline config net =
     (case Unmarshal config of
        Inl err \<Rightarrow> (Some err, net)
      | Inr conf \<Rightarrow>
          (case ctx_deadline of
             None \<Rightarrow> (Some DeadlineNotSet, net)
           | Some deadline \<Rightarrow>
               (case DialContext net (Server conf) (Port conf) of
                  (Some err, net1) \<Rightarrow> (Some (DialError (Server conf) (Port conf) err), net1)
                | (None, c) \<Rightarrow>
                    (case exchange conf c of
                       (Inl err, c') \<Rightarrow> (Some err, CloseConn c')
                     | (Inr cmdOutput, c') \<Rightarrow>
                         if \<not> Contains cmdOutput (ExpectedOutput conf)
                         then (Some (OutputMismatch cmdOutput), CloseConn c')
                         else (None, CloseConn c')))))"

section \<open>The plain-line probe (package ssh, main.go)\<close>

text \<open>
  \<^verbatim>\<open>strings.TrimSpace\<close> removes the leading and the trailing white space, as Unicode
  defines it, of a string read as UTF-8: the six ASCII space bytes and the encodings of
  U+0085, U+00A0, U+1680, U+2000 to U+200A, U+2028, U+2029, U+202F, U+205F and U+3000.
\<close>

definition space_runes :: "string list" where
  "space_runes =
     [[CHR 0x09], [CHR 0x0A], [CHR 0x0B], [CHR 0x0C], [CHR 0x0D], [CHR 0x20],
      [CHR 0xC2, CHR 0x85], [CHR 0xC2, CHR 0xA0], [CHR 0xE1, CHR 0x9A, CHR 0x80],
      [CHR 0xE2, CHR 0x80, CHR 0x80], [CHR 0xE2, CHR 0x80, CHR 0x81],
      [CHR 0xE2, CHR 0x80, CHR 0x82], [CHR 0xE2, CHR 0x80, CHR 0x83],
      [CHR 0xE2, CHR 0x80, CHR 0x84], [CHR 0xE2, CHR 0x80, CHR 0x85],
      [CHR 0xE2, CHR 0x80, CHR 0x86], [CHR 0xE2, CHR 0x80, CHR 0x87],
      [CHR 0xE2, CHR 0x80, CHR 0x88], [CHR 0xE2, CHR 0x80, CHR 0x89],
      [CHR 0xE2, CHR 0x80, CHR 0x8A], [CHR 0xE2, CHR 0x80, CHR 0xA8],
      [CHR 0xE2, CHR 0x80, CHR 0xA9], [CHR 0xE2, CHR 0x80, CHR 0xAF],
      [CHR 0xE2, CHR 0x81, CHR 0x9F], [CHR 0xE3, CHR 0x80, CHR 0x80]]"

definition leading_space :: "string \<Rightarrow> nat" where
  "leading_space s = (case find (\<lambda>w. prefix w s) space_runes of Some w \<Rightarrow> length w | None \<Rightarrow> 0)"

definition trailing_space :: "string \<Rightarrow> nat" where
  "trailing_space s = (case find (\<lambda>w. suffix w s) space_runes of Some w \<Rightarrow> length w | None \<Rightarrow> 0)"

lemma space_runes_nonempty: "w \<in> set space_runes \<Longrightarrow> w \<noteq> []"
  by (auto simp: space_runes_def)

lemma leading_space_le: "leading_space s \<le> length s"
  by (auto simp: leading_space_def find_Some_iff prefix_def split: option.splits)

lemma trailing_space_le: "trailing_space s \<le> length s"
  by (auto simp: trailing_space_def find_Some_iff suffix_def split: option.splits)

function TrimLeftSpace :: "string \<Rightarrow> string" where
  "TrimLeftSpace s =
     (if leading_space s = 0 then s else TrimLeftSpace (drop (leading_space s) s))"
  by pat_completeness auto
termination
proof (relation "measure length")
  fix s :: string
  assume "leading_space s \<noteq> 0"
  moreover have "leading_space s \<le> length s" by (rule leading_space_le)
  ultimately show "(drop (leading_space s) s, s) \<in> measure length" by simp
qed simp

function TrimRightSpace :: "string \<Rightarrow> string" where
  "TrimRightSpace s =
     (if trailing_space s = 0 then s
      else TrimRightSpace (take (length s - trailing_space s) s))"
  by pat_completeness auto
termination
proof (relation "measure length")
  fix s :: string
  assume "trailing_space s \<noteq> 0"
  moreover have "trailing_space s \<le> length s" by (rule trailing_space_le)
  ultimately show "(take (length s - trailing_space s) s, s) \<in> measure length" by simp
qed simp

definition TrimSpace :: "string \<Rightarrow> string" where
  "TrimSpace s = TrimRightSpace (TrimLeftSpace s)"

text \<open>
  The plain-line probe reads lines through a \<^verbatim>\<open>bufio.Reader\<close>: a call of
  \<^verbatim>\<open>reader.ReadString\<close> returns the bytes read and the error, if any. The record holds the
  outcome the dial will have, the results the successive calls of \<^verbatim>\<open>ReadString\<close> will
  return, whether a read deadline is set, and the log of the calls made so far. This
  probe sets no deadline on the connection before the command is sent: until then a read
  with nothing left to return blocks for ever (the value \<open>None\<close>). A peer that goes on
  sending lines without the prompt keeps a prompt loop running for ever; for the caller
  that is the same outcome, and it is not modelled apart. Once \<^verbatim>\<open>SetReadDeadline\<close> has
  been called a read with nothing left to return fails with the deadline error.
  \<^verbatim>\<open>fmt.Fprintf\<close> writes its line; the probe drops its result. The pause before the
  command (\<^verbatim>\<open>time.Sleep\<close>) changes nothing that is read or written and is left out.
\<close>

type_synonym line_result = "string \<times> io_error option"

datatype line_event =
    LDial string int
  | LRead line_result
  | LWrite string
  | LClose

record line_conn =
  dial_outcome :: "io_error option"
  lines :: "line_result list"
  read_deadline :: bool
  history :: "line_event list"

definition ReadString :: "line_conn \<Rightarrow> (line_result \<times> line_conn) option" where
  "ReadString c =
     (case lines c of
        [] \<Rightarrow>
          if read_deadline c
          then Some (([], Some DeadlineExceeded),
                     c\<lparr>history := history c @ [LRead ([], Some DeadlineExceeded)]\<rparr>)
          else None
      | r # rs \<Rightarrow> Some (r, c\<lparr>lines := rs, history := history c @ [LRead r]\<rparr>))"

definition Fprintf :: "line_conn \<Rightarrow> string \<Rightarrow> line_conn" where
  "Fprintf c s = c\<lparr>history := history c @ [LWrite s]\<rparr>"

definition SetReadDeadline :: "line_conn \<Rightarrow> line_conn" where
  "SetReadDeadline c = c\<lparr>read_deadline := True\<rparr>"

definition DialTimeout :: "line_conn \<Rightarrow> string \<Rightarrow> int \<Rightarrow> io_error option \<times> line_conn" where
  "DialTimeout net server port =
     (dial_outcome net, net\<lparr>history := history net @ [LDial server port]\<rparr>)"

definition CloseLine :: "line_conn \<Rightarrow> line_conn" where
  "CloseLine c = c\<lparr>history := history c @ [LClose]\<rparr>"

definition LF :: string where "LF = [CHR 0x0A]"

lemma ReadString_shorter:
  "ReadString c = Some (r, c1) \<Longrightarrow> snd r = None \<Longrightarrow> length (lines c1) < length (lines c)"
  by (auto simp: ReadString_def split: list.splits if_splits)

text \<open>
  The two prompt loops of \<^verbatim>\<open>Run\<close> (lines 77 to 86 and 88 to 97): read lines until one
  contains the prompt, then write the reply and a line feed. A failed read returns the
  error with the message \<^verbatim>\<open>context deadline is not set\<close>.
\<close>

function prompt_loop ::
  "string \<Rightarrow> string \<Rightarrow> line_conn \<Rightarrow> (error option \<times> line_conn) option" where
  "prompt_loop prompt reply c =
     (case ReadString c of
        None \<Rightarrow> None
      | Some (r, c1) \<Rightarrow>
          (case snd r of
             Some e \<Rightarrow> Some (Some DeadlineNotSet, c1)
           | None \<Rightarrow>
               if Contains (fst r) prompt then Some (None, Fprintf c1 (reply @ LF))
               else prompt_loop prompt reply c1))"
  by pat_completeness auto
termination
proof (relation "measure (\<lambda>(prompt, reply, c). length (lines c))")
qed (auto dest: ReadString_shorter)

text \<open>
  The output loop (lines 111 to 119): set the read deadline, read a line, stop at the
  first failed read (what that read returned is dropped), else append the line.
\<close>

function output_loop :: "string \<Rightarrow> line_conn \<Rightarrow> (string \<times> line_conn) option" where
  "output_loop result c =
     (case ReadString (SetReadDeadline c) of
        None \<Rightarrow> None
      | Some (r, c1) \<Rightarrow>
          (case snd r of
             Some e \<Rightarrow> Some (result, c1)
           | None \<Rightarrow> output_loop (result @ fst r) c1))"
  by pat_completeness auto
termination
proof (relation "measure (\<lambda>(result, c). length (lines c))")
qed (auto dest: ReadString_shorter simp: SetReadDeadline_def)

text \<open>
  Lines 75 to 119 of \<^verbatim>\<open>Run\<close>, on the open connection: the result is the error \<^verbatim>\<open>Run\<close>
  returns from there, or the output accumulated in \<^verbatim>\<open>result\<close>; \<open>None\<close> when a read blocks
  for ever.
\<close>

definition dialogue :: "Schema \<Rightarrow> line_conn \<Rightarrow> ((error + string) \<times> line_conn) option" where
  "dialogue conf c =
     (case prompt_loop ''login:'' (Username conf) c of
        None \<Rightarrow> None
      | Some (Some err, c1) \<Rightarrow> Some (Inl err, c1)
      | Some (None, c1) \<Rightarrow>
     (case prompt_loop ''Password:'' (Password conf) c1 of
        None \<Rightarrow> None
      | Some (Some err, c2) \<Rightarrow> Some (Inl err, c2)
      | Some (None, c2) \<Rightarrow>
     (case ReadString c2 of
        None \<Rightarrow> None
      | Some (r, c3) \<Rightarrow>
          (case snd r of
             Some e \<Rightarrow> Some (Inl DeadlineNotSet, c3)
           | None \<Rightarrow>
               if Contains (fst r) ''login:'' then Some (Inl LoginFailed, c3)
               else
                 (case output_loop [] (Fprintf c3 (Command conf @ LF)) of
                    None \<Rightarrow> None
                  | Some (result, c4) \<Rightarrow> Some (Inr result, c4))))))"

text \<open>
  \<^verbatim>\<open>Run(ctx, config)\<close> of package ssh. \<open>None\<close>: the call never returns (a read blocks for
  ever, so the deferred close is never reached).
\<close>

definition Run_ssh ::
  "(string \<Rightarrow> error + Schema) \<Rightarrow> nat option \<Rightarrow> string \<Rightarrow> line_conn
     \<Rightarrow> (error option \<times> line_conn) option" where
  "Run_ssh Unmarshal ctx_deadline config net =
     (case Unmarshal config of
        Inl err \<Rightarrow> Some (Some err, net)
      | Inr conf \<Rightarrow>
          (case ctx_deadline of
             None \<Rightarrow> Some (Some DeadlineNotSet, net)
           | Some deadline \<Rightarrow>
               (case DialTimeout net (Server conf) (Port conf) of
                  (Some err, net1) \<Rightarrow> Some (Some TcpDialFailed, net1)
                | (None, c) \<Rightarrow>
                    (case dialogue conf c of
                       None \<Rightarrow> None
                     | Some (Inl err, c') \<Rightarrow> Some (Some err, CloseLine c')
                     | Some (Inr result, c') \<Rightarrow>
                         (let outputString = TrimSpace result;
                              expectedOutputString = TrimSpace (ExpectedOutput conf)
                          in if outputString \<noteq> expectedOutputString
                             then Some (Some (UnexpectedOutput expectedOutputString outputString),
                                        CloseLine c')
                             else Some (None, CloseLine c'))))))"

section \<open>Describing inputs and logs\<close>

text \<open>
  Byte-by-byte delivery: each read returns one byte of \<open>bs\<close> and no error. The connection
  after the reads \<open>rs\<close> were made on it, with \<open>rest\<close> left to come. The bytes written, and
  the bytes delivered by a run of reads.
\<close>

definition deliver :: "string \<Rightarrow> read_result list" where
  "deliver bs = map (\<lambda>b. (Some b, None)) bs"

definition consumed :: "conn \<Rightarrow> read_result list \<Rightarrow> read_result list \<Rightarrow> conn" where
  "consumed c rs rest = c\<lparr>inbound := rest, calls := calls c @ map Rd rs\<rparr>"

fun written :: "event list \<Rightarrow> string list" where
  "written [] = []"
| "written (Wr bs r # evs) = bs # written evs"
| "written (ev # evs) = written evs"

fun delivered :: "read_result list \<Rightarrow> string" where
  "delivered [] = []"
| "delivered ((Some b, e) # rs) = b # delivered rs"
| "delivered ((None, e) # rs) = delivered rs"

text \<open>
  No target is contained in the buffer \<open>buf\<close> extended by any non-empty prefix of \<open>xs\<close>:
  appending \<open>xs\<close> byte by byte never produces a match.
\<close>

fun unmatched :: "string list \<Rightarrow> string \<Rightarrow> string \<Rightarrow> bool" where
  "unmatched targets buf [] = True"
| "unmatched targets buf (x # xs) =
     (\<not> list_ex (Contains (buf @ [x])) targets \<and> unmatched targets (buf @ [x]) xs)"

text \<open>
  Reads that fail for good: each of them delivers nothing and returns an error (and once
  they are used up, reads fail with the deadline error).
\<close>

definition failing :: "read_result list \<Rightarrow> bool" where
  "failing rs = list_all (\<lambda>r. fst r = None \<and> snd r \<noteq> None) rs"

text \<open>
  Whole lines: each call of \<^verbatim>\<open>ReadString\<close> returns one of them and no error. The bytes of
  every white space rune, one rune after the other.
\<close>

definition whole_lines :: "string list \<Rightarrow> line_result list" where
  "whole_lines ls = map (\<lambda>l. (l, None)) ls"

definition all_spaces :: string where
  "all_spaces =
         [CHR 0x09, CHR 0x0A, CHR 0x0B, CHR 0x0C, CHR 0x0D, CHR 0x20,
          CHR 0xC2, CHR 0x85, CHR 0xC2, CHR 0xA0, CHR 0xE1, CHR 0x9A,
          CHR 0x80, CHR 0xE2, CHR 0x80, CHR 0x80, CHR 0xE2, CHR 0x80,
          CHR 0x81, CHR 0xE2, CHR 0x80, CHR 0x82, CHR 0xE2, CHR 0x80,
          CHR 0x83, CHR 0xE2, CHR 0x80, CHR 0x84, CHR 0xE2, CHR 0x80,
          CHR 0x85, CHR 0xE2, CHR 0x80, CHR 0x86, CHR 0xE2, CHR 0x80,
          CHR 0x87, CHR 0xE2, CHR 0x80, CHR 0x88, CHR 0xE2, CHR 0x80,
          CHR 0x89, CHR 0xE2, CHR 0x80, CHR 0x8A, CHR 0xE2, CHR 0x80,
          CHR 0xA8, CHR 0xE2, CHR 0x80, CHR 0xA9, CHR 0xE2, CHR 0x80,
          CHR 0xAF, CHR 0xE2, CHR 0x81, CHR 0x9F, CHR 0xE3, CHR 0x80,
          CHR 0x80]"

text \<open>The network before the dial, with the reads and the write results to come.\<close>

definition network :: "io_error option \<Rightarrow> read_result list \<Rightarrow> io_error option list \<Rightarrow> conn" where
  "network d rs ws = \<lparr>dial_result = d, inbound = rs, wresults = ws, calls = []\<rparr>"

definition line_network :: "io_error option \<Rightarrow> line_result list \<Rightarrow> line_conn" where
  "line_network d ls = \<lparr>dial_outcome = d, lines = ls, read_deadline = False, history = []\<rparr>"

declare subnegotiation.simps [simp del]
declare readUntilAny_loop.simps [simp del]
declare TrimLeftSpace.simps [simp del]
declare TrimRightSpace.simps [simp del]
declare prompt_loop.simps [simp del]
declare output_loop.simps [simp del]

text \<open>
  Scenario A of the specification: the peer sends the login prompt, the password prompt, a
  shell prompt, and after the command its output and the prompt again.
\<close>

definition alice :: Schema where
  "alice = \<lparr>Server = ''host'', Port = 23, Username = ''alice'', Password = ''secret'',
             Command = ''whoami'', ExpectedOutput = ''alice''\<rparr>"

definition scenario_A :: conn where
  "scenario_A =
     network None (deliver (''login:'' @ ''assword:'' @ ''$ '' @ ''alice'' @ [CHR 0x0A] @ ''$ '')) []"

text \<open>
  A session of the plain-line probe: the two prompts, a greeting, and one line of output
  before the peer falls silent.
\<close>

definition line_session :: line_conn where
  "line_session =
     line_network None
       [(''login:'' @ LF, None), (''Password:'' @ LF, None), (''Welcome'' @ LF, None),
        (''alice'' @ LF, None)]"

text \<open>
  Scenario D of the specification: after the password the peer sends the login prompt
  again.
\<close>

definition scenario_D :: line_conn where
  "scenario_D =
     line_network None
       [(''login:'' @ LF, None), (''Password:'' @ LF, None), (''login:'' @ LF, None)]"

text \<open>
  Scenario B of the specification: the password prompt never arrives before the deadline.
  Scenario E: the command produces no output within the idle window.
\<close>

definition scenario_B :: conn where
  "scenario_B = network None (deliver (''login:'' @ ''Last login: today'')) []"

definition scenario_E :: line_conn where
  "scenario_E =
     line_network None
       [(''login:'' @ LF, None), (''Password:'' @ LF, None), (''Welcome'' @ LF, None)]"

section \<open>Steps of the prompt matcher\<close>

lemma Read_Cons: "inbound c = r # rs \<Longrightarrow> Read c = (r, consumed c [r] rs)"
  by (simp add: Read_def consumed_def)

lemma Read_Nil:
  "inbound c = [] \<Longrightarrow>
     Read c = ((None, Some DeadlineExceeded), c\<lparr>calls := calls c @ [Rd (None, Some DeadlineExceeded)]\<rparr>)"
  by (simp add: Read_def)

lemma handleIAC_other: "b \<noteq> IAC \<Longrightarrow> handleIAC c b = (False, c)"
  by (simp add: handleIAC_def)

lemma consumed_consumed [simp]:
  "consumed (consumed c rs1 mid) rs2 rest = consumed c (rs1 @ rs2) rest"
  by (simp add: consumed_def)

lemma inbound_consumed [simp]: "inbound (consumed c rs rest) = rest"
  by (simp add: consumed_def)

lemma calls_consumed [simp]: "calls (consumed c rs rest) = calls c @ map Rd rs"
  by (simp add: consumed_def)

lemma consumed_Nil: "inbound c = rest \<Longrightarrow> consumed c [] rest = c"
  by (simp add: consumed_def)

lemma loop_byte:
  assumes "inbound c = (Some b, e) # rest" and "b \<noteq> IAC"
  shows "readUntilAny_loop targets buf c =
     (if list_ex (Contains (buf @ [b])) targets
      then ((buf @ [b], None), consumed c [(Some b, e)] rest)
      else (case e of
              Some err \<Rightarrow> ((buf @ [b], Some (ReadError targets err)), consumed c [(Some b, e)] rest)
            | None \<Rightarrow> readUntilAny_loop targets (buf @ [b]) (consumed c [(Some b, e)] rest)))"
  using assms
  by (subst readUntilAny_loop.simps) (simp add: Read_Cons handleIAC_other Let_def)

lemma loop_error:
  assumes "inbound c = (None, Some e) # rest"
  shows "readUntilAny_loop targets buf c =
           ((buf, Some (ReadError targets e)), consumed c [(None, Some e)] rest)"
  using assms by (subst readUntilAny_loop.simps) (simp add: Read_Cons)

lemma loop_deadline:
  assumes "inbound c = []"
  shows "readUntilAny_loop targets buf c =
           ((buf, Some (ReadError targets DeadlineExceeded)),
            c\<lparr>calls := calls c @ [Rd (None, Some DeadlineExceeded)]\<rparr>)"
  using assms by (subst readUntilAny_loop.simps) (simp add: Read_Nil)

lemma loop_nothing:
  assumes "inbound c = (None, None) # rest"
  shows "readUntilAny_loop targets buf c =
           readUntilAny_loop targets buf (consumed c [(None, None)] rest)"
  using assms by (subst readUntilAny_loop.simps) (simp add: Read_Cons)

lemma loop_deliver:
  assumes "IAC \<notin> set xs"
    and "\<forall>k. 0 < k \<and> k \<le> length xs \<longrightarrow> \<not> list_ex (Contains (buf @ take k xs)) targets"
    and "inbound c = deliver xs @ rest"
  shows "readUntilAny_loop targets buf c =
           readUntilAny_loop targets (buf @ xs) (consumed c (deliver xs) rest)"
  using assms
proof (induction xs arbitrary: buf c)
  case Nil
  then show ?case by (simp add: deliver_def consumed_Nil)
next
  case (Cons x xs)
  let ?c1 = "consumed c [(Some x, None)] (deliver xs @ rest)"
  have inb: "inbound c = (Some x, None) # (deliver xs @ rest)"
    using Cons.prems(3) by (simp add: deliver_def)
  have nomatch: "\<not> list_ex (Contains (buf @ [x])) targets"
    using Cons.prems(2) [rule_format, of 1] by simp
  have step: "readUntilAny_loop targets buf c = readUntilAny_loop targets (buf @ [x]) ?c1"
  proof -
    have "x \<noteq> IAC" using Cons.prems(1) by auto
    from loop_byte [OF inb this, of targets buf] nomatch show ?thesis by simp
  qed
  have later: "\<forall>k. 0 < k \<and> k \<le> length xs \<longrightarrow> \<not> list_ex (Contains ((buf @ [x]) @ take k xs)) targets"
  proof (intro allI impI)
    fix k assume "0 < k \<and> k \<le> length xs"
    then show "\<not> list_ex (Contains ((buf @ [x]) @ take k xs)) targets"
      using Cons.prems(2) [rule_format, of "Suc k"] by simp
  qed
  have "readUntilAny_loop targets (buf @ [x]) ?c1 =
          readUntilAny_loop targets ((buf @ [x]) @ xs) (consumed ?c1 (deliver xs) rest)"
    by (rule Cons.IH) (use Cons.prems(1) later in simp_all)
  with step show ?case by (simp add: deliver_def)
qed

lemma unmatched_iff:
  "unmatched targets buf xs \<longleftrightarrow>
     (\<forall>k. 0 < k \<and> k \<le> length xs \<longrightarrow> \<not> list_ex (Contains (buf @ take k xs)) targets)"
proof (induction xs arbitrary: buf)
  case Nil
  then show ?case by simp
next
  case (Cons x xs)
  show ?case
  proof
    assume u: "unmatched targets buf (x # xs)"
    show "\<forall>k. 0 < k \<and> k \<le> length (x # xs) \<longrightarrow> \<not> list_ex (Contains (buf @ take k (x # xs))) targets"
    proof (intro allI impI)
      fix k assume k: "0 < k \<and> k \<le> length (x # xs)"
      then obtain j where j: "k = Suc j" by (cases k) auto
      show "\<not> list_ex (Contains (buf @ take k (x # xs))) targets"
      proof (cases j)
        case 0
        then show ?thesis using u j by simp
      next
        case (Suc i)
        have "\<not> list_ex (Contains ((buf @ [x]) @ take j xs)) targets"
          using u k j Suc Cons.IH [of "buf @ [x]"] by auto
        then show ?thesis using j by simp
      qed
    qed
  next
    assume a: "\<forall>k. 0 < k \<and> k \<le> length (x # xs) \<longrightarrow> \<not> list_ex (Contains (buf @ take k (x # xs))) targets"
    have "\<not> list_ex (Contains (buf @ [x])) targets"
      using a [rule_format, of 1] by simp
    moreover have "unmatched targets (buf @ [x]) xs"
      unfolding Cons.IH
    proof (intro allI impI)
      fix k assume "0 < k \<and> k \<le> length xs"
      then show "\<not> list_ex (Contains ((buf @ [x]) @ take k xs)) targets"
        using a [rule_format, of "Suc k"] by simp
    qed
    ultimately show "unmatched targets buf (x # xs)" by simp
  qed
qed

lemma loop_error_shape:
  "snd (fst (readUntilAny_loop targets buf c)) = Some err \<Longrightarrow> \<exists>e. err = ReadError targets e"
proof (induction targets buf c rule: readUntilAny_loop.induct)
  case (1 targets buf c)
  obtain r c1 where r: "Read c = (r, c1)" by (cases "Read c")
  show ?case
  proof (cases "fst r")
    case None
    note fr = None
    show ?thesis
    proof (cases "snd r")
      case None
      then show ?thesis
        using "1.prems" "1.IH"(1) [OF r [symmetric] fr None] r fr
        by (subst (asm) readUntilAny_loop.simps) auto
    next
      case (Some e)
      then show ?thesis using "1.prems" r fr
        by (subst (asm) readUntilAny_loop.simps) auto
    qed
  next
    case (Some b)
    note fr = Some
    obtain handled c2 where h: "handleIAC c1 b = (handled, c2)" by (cases "handleIAC c1 b")
    show ?thesis
    proof (cases handled)
      case True
      then show ?thesis
        using "1.prems" "1.IH"(2) [OF r [symmetric] fr h [symmetric] True] r fr h
        by (subst (asm) readUntilAny_loop.simps) auto
    next
      case False
      note nh = False
      show ?thesis
      proof (cases "list_ex (Contains (buf @ [b])) targets")
        case True
        then show ?thesis using "1.prems" r fr h nh
          by (subst (asm) readUntilAny_loop.simps) (auto simp: Let_def)
      next
        case False
        note nm = False
        show ?thesis
        proof (cases "snd r")
          case None
          then show ?thesis
            using "1.prems" "1.IH"(3) [OF r [symmetric] fr h [symmetric] nh refl nm None] r fr h nh nm
            by (subst (asm) readUntilAny_loop.simps) (auto simp: Let_def)
        next
          case (Some e)
          then show ?thesis using "1.prems" r fr h nh nm
            by (subst (asm) readUntilAny_loop.simps) (auto simp: Let_def)
        qed
      qed
    qed
  qed
qed

lemma written_append [simp]: "written (evs @ evs') = written evs @ written evs'"
  by (induction evs rule: written.induct) simp_all

lemma written_Rd [simp]: "written (map Rd rs) = []"
  by (induction rs) simp_all

lemma calls_Write: "calls (snd (Write c bs)) = calls c @ [Wr bs (fst (Write c bs))]"
  by (simp add: Write_def split: list.splits)

lemma written_Write [simp]: "written (calls (snd (Write c bs))) = written (calls c) @ [bs]"
  by (simp add: calls_Write)

lemma loop_handled:
  assumes "inbound c = (Some IAC, e) # rest"
    and "handleIAC (consumed c [(Some IAC, e)] rest) IAC = (True, c')"
  shows "readUntilAny_loop targets buf c = readUntilAny_loop targets buf c'"
  using assms by (subst readUntilAny_loop.simps) (simp add: Read_Cons)

lemma handleIAC_command:
  assumes "inbound c = (Some cmd, None) # rest"
  shows "handleIAC c IAC =
     (if cmd = DO then
        (case Read (consumed c [(Some cmd, None)] rest) of
           (ro, c2) \<Rightarrow> (True, snd (Write c2 [IAC, WONT, slice_after (CHR 0x00) ro])))
      else if cmd = WILL then
        (case Read (consumed c [(Some cmd, None)] rest) of
           (ro, c2) \<Rightarrow> (True, snd (Write c2 [IAC, DONT, slice_after (CHR 0x00) ro])))
      else if cmd = WONT \<or> cmd = DONT then (True, snd (Read (consumed c [(Some cmd, None)] rest)))
      else if cmd = SB then (True, subnegotiation (CHR 0x00) (consumed c [(Some cmd, None)] rest))
      else (True, consumed c [(Some cmd, None)] rest))"
  using assms by (simp add: handleIAC_def Read_Cons slice_after_def)

lemma calls_Read: "calls (snd (Read c)) = calls c @ [Rd (fst (Read c))]"
  by (simp add: Read_def split: list.splits)

lemma Read_grows: "Read c = (r, c1) \<Longrightarrow> prefix (calls c) (calls c1)"
  using calls_Read [of c] by simp

lemma Write_grows: "prefix (calls c) (calls (snd (Write c bs)))"
  by (simp add: calls_Write)

lemma subnegotiation_grows: "prefix (calls c) (calls (subnegotiation one c))"
proof (induction one c rule: subnegotiation.induct)
  case (1 one c)
  obtain r1 c1 where r1: "Read c = (r1, c1)" by (cases "Read c")
  obtain r2 c2 where r2: "Read c1 = (r2, c2)" by (cases "Read c1")
  note g1 = Read_grows [OF r1] and g2 = Read_grows [OF r2]
  show ?case
  proof (cases "snd r1")
    case (Some e)
    then show ?thesis using r1 g1 by (subst subnegotiation.simps) simp
  next
    case None
    note n1 = None
    show ?thesis
    proof (cases "slice_after one r1 = IAC")
      case False
      have "prefix (calls c1) (calls (subnegotiation (slice_after one r1) c1))"
        using "1.IH"(2) [OF r1 [symmetric] n1 refl False] .
      with g1 have "prefix (calls c) (calls (subnegotiation (slice_after one r1) c1))"
        by (rule prefix_order.trans)
      then show ?thesis using r1 n1 False by (subst subnegotiation.simps) simp
    next
      case True
      show ?thesis
      proof (cases "snd r2")
        case (Some e)
        have "prefix (calls c) (calls c2)" using g1 g2 by (rule prefix_order.trans)
        then show ?thesis using r1 r2 n1 True Some by (subst subnegotiation.simps) simp
      next
        case None
        note n2 = None
        have g: "prefix (calls c) (calls c2)" using g1 g2 by (rule prefix_order.trans)
        show ?thesis
        proof (cases "slice_after (slice_after one r1) r2 = SE")
          case True
          then show ?thesis using r1 r2 n1 n2 \<open>slice_after one r1 = IAC\<close> g
            by (subst subnegotiation.simps) simp
        next
          case False
          have "prefix (calls c2) (calls (subnegotiation (slice_after (slice_after one r1) r2) c2))"
            using "1.IH"(1) [OF r1 [symmetric] n1 refl True r2 [symmetric] n2 refl False] .
          with g have "prefix (calls c) (calls (subnegotiation (slice_after (slice_after one r1) r2) c2))"
            by (rule prefix_order.trans)
          then show ?thesis using r1 r2 n1 n2 True False
            by (subst subnegotiation.simps) simp
        qed
      qed
    qed
  qed
qed

lemma handleIAC_grows: "prefix (calls c) (calls (snd (handleIAC c b)))"
proof -
  obtain r c1 where r: "Read c = (r, c1)" by (cases "Read c")
  obtain ro c2 where ro: "Read c1 = (ro, c2)" by (cases "Read c1")
  note g1 = Read_grows [OF r] and g2 = Read_grows [OF ro]
  have g12: "prefix (calls c) (calls c2)" using g1 g2 by (rule prefix_order.trans)
  have w: "prefix (calls c) (calls (snd (Write c2 bs)))" for bs
    using g12 Write_grows [of c2 bs] by (rule prefix_order.trans)
  have s: "prefix (calls c) (calls (subnegotiation (CHR 0x00) c1))"
    using g1 subnegotiation_grows [of c1 "CHR 0x00"] by (rule prefix_order.trans)
  show ?thesis
    using r ro g1 g12 w s by (simp add: handleIAC_def Let_def split: option.splits)
qed

lemma loop_grows: "prefix (calls c) (calls (snd (readUntilAny_loop targets buf c)))"
proof (induction targets buf c rule: readUntilAny_loop.induct)
  case (1 targets buf c)
  obtain r c1 where r: "Read c = (r, c1)" by (cases "Read c")
  note g1 = Read_grows [OF r]
  show ?case
  proof (cases "fst r")
    case None
    note fr = None
    show ?thesis
    proof (cases "snd r")
      case None
      have "prefix (calls c1) (calls (snd (readUntilAny_loop targets buf c1)))"
        using "1.IH"(1) [OF r [symmetric] fr None] .
      with g1 have "prefix (calls c) (calls (snd (readUntilAny_loop targets buf c1)))"
        by (rule prefix_order.trans)
      then show ?thesis using r fr None by (subst readUntilAny_loop.simps) simp
    next
      case (Some e)
      then show ?thesis using r fr g1 by (subst readUntilAny_loop.simps) simp
    qed
  next
    case (Some b)
    note fr = Some
    obtain handled c2 where h: "handleIAC c1 b = (handled, c2)" by (cases "handleIAC c1 b")
    have g2: "prefix (calls c) (calls c2)"
      using g1 handleIAC_grows [of c1 b] h by (auto intro: prefix_order.trans)
    show ?thesis
    proof (cases handled)
      case True
      have "prefix (calls c2) (calls (snd (readUntilAny_loop targets buf c2)))"
        using "1.IH"(2) [OF r [symmetric] fr h [symmetric] True] .
      with g2 have "prefix (calls c) (calls (snd (readUntilAny_loop targets buf c2)))"
        by (rule prefix_order.trans)
      then show ?thesis using r fr h True by (subst readUntilAny_loop.simps) simp
    next
      case False
      note nh = False
      show ?thesis
      proof (cases "list_ex (Contains (buf @ [b])) targets")
        case True
        then show ?thesis using r fr h nh g2
          by (subst readUntilAny_loop.simps) (simp add: Let_def)
      next
        case False
        note nm = False
        show ?thesis
        proof (cases "snd r")
          case None
          have "prefix (calls c2) (calls (snd (readUntilAny_loop targets (buf @ [b]) c2)))"
            using "1.IH"(3) [OF r [symmetric] fr h [symmetric] nh refl nm None] .
          with g2 have "prefix (calls c) (calls (snd (readUntilAny_loop targets (buf @ [b]) c2)))"
            by (rule prefix_order.trans)
          then show ?thesis using r fr h nh nm None
            by (subst readUntilAny_loop.simps) (simp add: Let_def)
        next
          case (Some e)
          then show ?thesis using r fr h nh nm g2
            by (subst readUntilAny_loop.simps) (simp add: Let_def)
        qed
      qed
    qed
  qed
qed

lemma readUntilAny_grows: "readUntilAny c targets = (res, c') \<Longrightarrow> prefix (calls c) (calls c')"
  using loop_grows [of c targets "[]"] by (simp add: readUntilAny_def)

lemma sendLine_grows: "sendLine c line = (r, c') \<Longrightarrow> prefix (calls c) (calls c')"
  using Write_grows [of c "line @ CRLF"] by (simp add: sendLine_def)

lemma sendLine_calls: "sendLine c line = (r, c') \<Longrightarrow> calls c' = calls c @ [Wr (line @ CRLF) r]"
  using calls_Write [of c "line @ CRLF"] by (simp add: sendLine_def)

lemma exchange_Password: "exchange (conf\<lparr>Password := p\<rparr>) c = exchange conf c"
  by (simp add: exchange_def cong: prod.case_cong option.case_cong)

lemma exchange_Inr_iff:
  "exchange conf c = (Inr cmdOutput, c') \<longleftrightarrow>
     (\<exists>s1 c1 c2 s2 c3 c4 s3 c5 c6.
        readUntilAny c [''ogin:''] = ((s1, None), c1) \<and>
        sendLine c1 (Username conf) = (None, c2) \<and>
        readUntilAny c2 [''assword:''] = ((s2, None), c3) \<and>
        sendLine c3 (Username conf) = (None, c4) \<and>
        readUntilAny c4 [''$ '', ''# ''] = ((s3, None), c5) \<and>
        sendLine c5 (Command conf) = (None, c6) \<and>
        readUntilAny c6 [''$ '', ''# ''] = ((cmdOutput, None), c'))"
  by (auto simp: exchange_def split: prod.splits option.splits)

lemma ReadString_Cons:
  "lines c = r # rs \<Longrightarrow> ReadString c = Some (r, c\<lparr>lines := rs, history := history c @ [LRead r]\<rparr>)"
  by (simp add: ReadString_def)

lemma ReadString_history:
  "ReadString c = Some (r, c1) \<Longrightarrow> history c1 = history c @ [LRead r]"
  by (auto simp: ReadString_def split: list.splits if_splits)

lemma ReadString_deadline:
  "read_deadline c \<Longrightarrow> \<exists>r c1. ReadString c = Some (r, c1) \<and> read_deadline c1"
  by (cases "lines c") (simp_all add: ReadString_def)

lemma prompt_loop_sends:
  "prompt_loop prompt reply c = Some (None, c') \<Longrightarrow> \<exists>pre. history c' = pre @ [LWrite (reply @ LF)]"
proof (induction prompt reply c rule: prompt_loop.induct)
  case (1 prompt reply c)
  show ?case
  proof (cases "ReadString c")
    case None
    then show ?thesis using "1.prems" by (subst (asm) prompt_loop.simps) simp
  next
    case (Some a)
    obtain r c1 where a: "a = (r, c1)" by (cases a)
    show ?thesis
    proof (cases "snd r")
      case (Some e)
      then show ?thesis using "1.prems" \<open>ReadString c = Some a\<close> a
        by (subst (asm) prompt_loop.simps) simp
    next
      case None
      note n = None
      show ?thesis
      proof (cases "Contains (fst r) prompt")
        case True
        then have "c' = Fprintf c1 (reply @ LF)"
          using "1.prems" \<open>ReadString c = Some a\<close> a n
          by (subst (asm) prompt_loop.simps) simp
        then show ?thesis by (simp add: Fprintf_def)
      next
        case False
        then have "prompt_loop prompt reply c1 = Some (None, c')"
          using "1.prems" \<open>ReadString c = Some a\<close> a n
          by (subst (asm) prompt_loop.simps) simp
        then show ?thesis
          using "1.IH" [OF \<open>ReadString c = Some a\<close> a [symmetric] n False] by simp
      qed
    qed
  qed
qed

lemma output_loop_returns:
  "\<exists>res c'. output_loop result c = Some (res, c') \<and> prefix (history c) (history c')"
proof (induction result c rule: output_loop.induct)
  case (1 result c)
  have "read_deadline (SetReadDeadline c)" by (simp add: SetReadDeadline_def)
  then obtain r c1 where r: "ReadString (SetReadDeadline c) = Some (r, c1)"
    using ReadString_deadline by blast
  have h: "history c1 = history c @ [LRead r]"
    using ReadString_history [OF r] by (simp add: SetReadDeadline_def)
  show ?case
  proof (cases "snd r")
    case (Some e)
    then show ?thesis using r h by (subst output_loop.simps) simp
  next
    case None
    obtain res c' where "output_loop (result @ fst r) c1 = Some (res, c')"
      and "prefix (history c1) (history c')"
      using "1.IH" [OF r refl None] by blast
    then show ?thesis using r h None
      by (subst output_loop.simps) (auto simp: prefix_def)
  qed
qed

lemma delivered_append [simp]: "delivered (xs @ ys) = delivered xs @ delivered ys"
  by (induction xs rule: delivered.induct) simp_all

lemma Read_drop: "Read c = (r, c1) \<Longrightarrow> inbound c1 = drop (Suc 0) (inbound c)"
  by (auto simp: Read_def split: list.splits)


lemma subnegotiation_drop: "\<exists>k. inbound (subnegotiation one c) = drop k (inbound c)"
proof (induction one c rule: subnegotiation.induct)
  case (1 one c)
  obtain r1 c1 where r1: "Read c = (r1, c1)" by (cases "Read c")
  obtain r2 c2 where r2: "Read c1 = (r2, c2)" by (cases "Read c1")
  have d1: "inbound c1 = drop (Suc 0) (inbound c)" by (rule Read_drop [OF r1])
  have d2: "inbound c2 = drop (Suc (Suc 0)) (inbound c)"
    using Read_drop [OF r2] d1 by simp
  show ?case
  proof (cases "snd r1")
    case (Some e)
    then have "subnegotiation one c = c1" using r1 by (subst subnegotiation.simps) simp
    then show ?thesis using d1 by blast
  next
    case None
    note n1 = None
    show ?thesis
    proof (cases "slice_after one r1 = IAC")
      case False
      obtain k where "inbound (subnegotiation (slice_after one r1) c1) = drop k (inbound c1)"
        using "1.IH"(2) [OF r1 [symmetric] n1 refl False] by blast
      moreover have "subnegotiation one c = subnegotiation (slice_after one r1) c1"
        using r1 n1 False by (subst subnegotiation.simps) simp
      ultimately have "inbound (subnegotiation one c) = drop (Suc k) (inbound c)"
        using d1 by simp
      then show ?thesis by blast
    next
      case True
      show ?thesis
      proof (cases "snd r2")
        case (Some e)
        then have "subnegotiation one c = c2"
          using r1 r2 n1 True by (subst subnegotiation.simps) simp
        then show ?thesis using d2 by blast
      next
        case None
        note n2 = None
        show ?thesis
        proof (cases "slice_after (slice_after one r1) r2 = SE")
          case True
          then have "subnegotiation one c = c2"
            using r1 r2 n1 n2 \<open>slice_after one r1 = IAC\<close> by (subst subnegotiation.simps) simp
          then show ?thesis using d2 by blast
        next
          case False
          obtain k where "inbound (subnegotiation (slice_after (slice_after one r1) r2) c2) =
                            drop k (inbound c2)"
            using "1.IH"(1) [OF r1 [symmetric] n1 refl True r2 [symmetric] n2 refl False] by blast
          moreover have "subnegotiation one c =
                           subnegotiation (slice_after (slice_after one r1) r2) c2"
            using r1 r2 n1 n2 True False by (subst subnegotiation.simps) simp
          ultimately have "inbound (subnegotiation one c) = drop (Suc (Suc k)) (inbound c)"
            using d2 by simp
          then show ?thesis by blast
        qed
      qed
    qed
  qed
qed

lemma handleIAC_drop: "\<exists>k. inbound (snd (handleIAC c b)) = drop k (inbound c)"
proof -
  obtain r c1 where r: "Read c = (r, c1)" by (cases "Read c")
  obtain ro c2 where ro: "Read c1 = (ro, c2)" by (cases "Read c1")
  have d0: "inbound c = drop 0 (inbound c)" by simp
  have d1: "inbound c1 = drop (Suc 0) (inbound c)" by (rule Read_drop [OF r])
  have d2: "inbound c2 = drop (Suc (Suc 0)) (inbound c)" using Read_drop [OF ro] d1 by simp
  obtain k where "inbound (subnegotiation (CHR 0x00) c1) = drop k (inbound c1)"
    using subnegotiation_drop by blast
  then have d3: "inbound (subnegotiation (CHR 0x00) c1) = drop (Suc k) (inbound c)"
    using d1 by simp
  have "inbound (snd (handleIAC c b)) \<in>
          {inbound c, inbound c1, inbound c2, inbound (subnegotiation (CHR 0x00) c1)}"
    using r ro by (simp add: handleIAC_def Let_def split: option.splits)
  then show ?thesis using d0 d1 d2 d3 by (metis insertE singletonD)
qed





lemma failing_drop: "failing rs \<Longrightarrow> failing (drop k rs)"
  by (auto simp: failing_def list_all_iff dest: in_set_dropD)

lemma loop_failing:
  assumes "failing (inbound c)"
  shows "\<exists>e c'. readUntilAny_loop targets buf c = ((buf, Some (ReadError targets e)), c')"
proof (cases "inbound c")
  case Nil
  then show ?thesis using loop_deadline [of c targets buf] by blast
next
  case (Cons r rs)
  then obtain e where "r = (None, Some e)"
    using assms by (cases r) (auto simp: failing_def)
  then show ?thesis using loop_error [of c e rs targets buf] Cons by blast
qed

lemma loop_filter_meets_failure:
  assumes "inbound c = (Some IAC, e0) # mid @ rs" and "failing rs"
    and "length (inbound (snd (handleIAC (consumed c [(Some IAC, e0)] (mid @ rs)) IAC))) \<le> length rs"
  shows "\<exists>e c'. readUntilAny_loop targets buf c = ((buf, Some (ReadError targets e)), c')"
proof -
  let ?c1 = "consumed c [(Some IAC, e0)] (mid @ rs)"
  obtain handled c2 where h: "handleIAC ?c1 IAC = (handled, c2)" by (cases "handleIAC ?c1 IAC")
  have "handled" using h by (auto simp: handleIAC_def Let_def split: prod.splits option.splits if_splits)
  obtain k where k: "inbound c2 = drop k (mid @ rs)"
    using handleIAC_drop [of ?c1 IAC] h by auto
  have "length mid \<le> k"
  proof (rule ccontr)
    assume "\<not> length mid \<le> k"
    then have "length (drop k (mid @ rs)) > length rs" by simp
    then show False using assms(3) h k by simp
  qed
  then have "inbound c2 = drop (k - length mid) rs" using k by simp
  then have "failing (inbound c2)" using failing_drop [OF assms(2)] by simp
  then obtain e c' where "readUntilAny_loop targets buf c2 = ((buf, Some (ReadError targets e)), c')"
    using loop_failing by blast
  moreover have "readUntilAny_loop targets buf c = readUntilAny_loop targets buf c2"
    using loop_handled [OF assms(1), of c2 targets buf] h \<open>handled\<close> by simp
  ultimately show ?thesis by simp
qed

lemma Run_nil_iff_exchange:
  "fst (Run Unmarshal ctx config net) = None \<longleftrightarrow>
      (\<exists>conf d c cmdOutput c'.
         Unmarshal config = Inr conf \<and> ctx = Some d \<and>
         DialContext net (Server conf) (Port conf) = (None, c) \<and>
         exchange conf c = (Inr cmdOutput, c') \<and>
         Contains cmdOutput (ExpectedOutput conf))"
  by (auto simp: Run_def split: sum.splits option.splits prod.splits if_splits)

lemma Run_ssh_nil_iff_dialogue:
  "(\<exists>lc. Run_ssh Unmarshal ctx config lnet = Some (None, lc)) \<longleftrightarrow>
      (\<exists>conf d c result c'.
         Unmarshal config = Inr conf \<and> ctx = Some d \<and>
         DialTimeout lnet (Server conf) (Port conf) = (None, c) \<and>
         dialogue conf c = Some (Inr result, c') \<and>
         TrimSpace result = TrimSpace (ExpectedOutput conf))"
  by (auto simp: Run_ssh_def Let_def split: sum.splits option.splits prod.splits if_splits)

lemma dialogue_Inr_iff:
  "dialogue conf c = Some (Inr result, c') \<longleftrightarrow>
     (\<exists>c1 c2 line c3.
        prompt_loop ''login:'' (Username conf) c = Some (None, c1) \<and>
        prompt_loop ''Password:'' (Password conf) c1 = Some (None, c2) \<and>
        ReadString c2 = Some ((line, None), c3) \<and>
        \<not> Contains line ''login:'' \<and>
        output_loop [] (Fprintf c3 (Command conf @ LF)) = Some (result, c'))"
  by (auto simp: dialogue_def split: prod.splits option.splits if_splits)

lemma output_loop_collects:
  assumes "lines c = whole_lines ls @ rest"
    and "rest = [] \<or> (\<exists>l e rest'. rest = (l, Some e) # rest')"
  shows "\<exists>c'. output_loop acc c = Some (acc @ concat ls, c')"
  using assms
proof (induction ls arbitrary: acc c)
  case Nil
  then have r: "lines (SetReadDeadline c) = rest" "read_deadline (SetReadDeadline c)"
    by (simp_all add: SetReadDeadline_def whole_lines_def)
  from Nil(2) show ?case
  proof
    assume "rest = []"
    then show ?thesis using r by (subst output_loop.simps) (simp add: ReadString_def)
  next
    assume "\<exists>l e rest'. rest = (l, Some e) # rest'"
    then show ?thesis using r by (subst output_loop.simps) (auto simp: ReadString_def)
  qed
next
  case (Cons l ls)
  let ?c1 = "(SetReadDeadline c)\<lparr>lines := whole_lines ls @ rest,
               history := history (SetReadDeadline c) @ [LRead (l, None)]\<rparr>"
  have rd: "ReadString (SetReadDeadline c) = Some ((l, None), ?c1)"
    using Cons.prems(1) by (simp add: ReadString_def SetReadDeadline_def whole_lines_def)
  have "lines ?c1 = whole_lines ls @ rest" by simp
  from Cons.IH [OF this Cons.prems(2), of "acc @ l"]
  obtain c' where "output_loop (acc @ l) ?c1 = Some ((acc @ l) @ concat ls, c')" by blast
  then show ?case using rd by (subst output_loop.simps) simp
qed

lemma find_space_rune_nonempty:
  "find P space_runes = Some w \<Longrightarrow> w \<in> set space_runes \<and> length w \<noteq> 0 \<and> P w"
  using space_runes_nonempty by (auto simp: find_Some_iff dest: nth_mem)

lemma leading_space_0_iff: "leading_space s = 0 \<longleftrightarrow> (\<forall>w\<in>set space_runes. \<not> prefix w s)"
proof (cases "find (\<lambda>w. prefix w s) space_runes")
  case None
  have "leading_space s = 0" unfolding leading_space_def None by simp
  moreover have "\<forall>w\<in>set space_runes. \<not> prefix w s"
    using None by (simp add: find_None_iff)
  ultimately show ?thesis by simp
next
  case (Some w)
  have "leading_space s = length w" unfolding leading_space_def Some by simp
  then show ?thesis using find_space_rune_nonempty [OF Some] by auto
qed

lemma leading_space_pos:
  assumes "leading_space s \<noteq> 0"
  shows "\<exists>w\<in>set space_runes. s = w @ drop (leading_space s) s"
proof (cases "find (\<lambda>w. prefix w s) space_runes")
  case None
  then show ?thesis using assms unfolding leading_space_def by simp
next
  case (Some w)
  have l: "leading_space s = length w" unfolding leading_space_def Some by simp
  have "w \<in> set space_runes" "prefix w s" using find_space_rune_nonempty [OF Some] by simp_all
  then show ?thesis using l by (auto simp: prefix_def)
qed

lemma trailing_space_0_iff: "trailing_space s = 0 \<longleftrightarrow> (\<forall>w\<in>set space_runes. \<not> suffix w s)"
proof (cases "find (\<lambda>w. suffix w s) space_runes")
  case None
  have "trailing_space s = 0" unfolding trailing_space_def None by simp
  moreover have "\<forall>w\<in>set space_runes. \<not> suffix w s"
    using None by (simp add: find_None_iff)
  ultimately show ?thesis by simp
next
  case (Some w)
  have "trailing_space s = length w" unfolding trailing_space_def Some by simp
  then show ?thesis using find_space_rune_nonempty [OF Some] by auto
qed

lemma trailing_space_pos:
  assumes "trailing_space s \<noteq> 0"
  shows "\<exists>w\<in>set space_runes. s = take (length s - trailing_space s) s @ w"
proof (cases "find (\<lambda>w. suffix w s) space_runes")
  case None
  then show ?thesis using assms unfolding trailing_space_def by simp
next
  case (Some w)
  have l: "trailing_space s = length w" unfolding trailing_space_def Some by simp
  have "w \<in> set space_runes" "suffix w s" using find_space_rune_nonempty [OF Some] by simp_all
  then show ?thesis using l by (auto simp: suffix_def)
qed

lemma TrimLeftSpace_spec:
  "\<exists>ls. set ls \<subseteq> set space_runes \<and> s = concat ls @ TrimLeftSpace s"
proof (induction s rule: TrimLeftSpace.induct)
  case (1 s)
  show ?case
  proof (cases "leading_space s = 0")
    case True
    then have "TrimLeftSpace s = s" by (subst TrimLeftSpace.simps) simp
    then show ?thesis by (intro exI [of _ "[]"]) simp
  next
    case False
    obtain w where w: "w \<in> set space_runes" "s = w @ drop (leading_space s) s"
      using leading_space_pos [OF False] by blast
    obtain ls where ls: "set ls \<subseteq> set space_runes"
      "drop (leading_space s) s = concat ls @ TrimLeftSpace (drop (leading_space s) s)"
      using "1.IH" [OF False] by blast
    have t: "TrimLeftSpace s = TrimLeftSpace (drop (leading_space s) s)"
      using False by (subst TrimLeftSpace.simps) simp
    have "s = concat (w # ls) @ TrimLeftSpace s"
      using w(2) ls(2) t by (metis append.assoc concat.simps(2))
    then show ?thesis using w(1) ls(1) by (intro exI [of _ "w # ls"]) simp
  qed
qed

lemma TrimLeftSpace_no_prefix: "w \<in> set space_runes \<Longrightarrow> \<not> prefix w (TrimLeftSpace s)"
proof (induction s rule: TrimLeftSpace.induct)
  case (1 s)
  show ?case
  proof (cases "leading_space s = 0")
    case True
    then have "TrimLeftSpace s = s" by (subst TrimLeftSpace.simps) simp
    then show ?thesis using True "1.prems" by (simp add: leading_space_0_iff)
  next
    case False
    then have "TrimLeftSpace s = TrimLeftSpace (drop (leading_space s) s)"
      by (subst TrimLeftSpace.simps) simp
    then show ?thesis using "1.IH" [OF False "1.prems"] by simp
  qed
qed

lemma TrimRightSpace_spec:
  "\<exists>ts. set ts \<subseteq> set space_runes \<and> s = TrimRightSpace s @ concat ts"
proof (induction s rule: TrimRightSpace.induct)
  case (1 s)
  show ?case
  proof (cases "trailing_space s = 0")
    case True
    then have "TrimRightSpace s = s" by (subst TrimRightSpace.simps) simp
    then show ?thesis by (intro exI [of _ "[]"]) simp
  next
    case False
    let ?t = "take (length s - trailing_space s) s"
    obtain w where w: "w \<in> set space_runes" "s = ?t @ w"
      using trailing_space_pos [OF False] by blast
    obtain ts where ts: "set ts \<subseteq> set space_runes" "?t = TrimRightSpace ?t @ concat ts"
      using "1.IH" [OF False] by blast
    have t: "TrimRightSpace s = TrimRightSpace ?t"
      using False by (subst TrimRightSpace.simps) simp
    have "s = TrimRightSpace s @ concat (ts @ [w])"
      using w(2) ts(2) t by (metis append.assoc append_Nil2 concat.simps concat_append)
    then show ?thesis using w(1) ts(1) by (intro exI [of _ "ts @ [w]"]) simp
  qed
qed

lemma TrimRightSpace_no_suffix: "w \<in> set space_runes \<Longrightarrow> \<not> suffix w (TrimRightSpace s)"
proof (induction s rule: TrimRightSpace.induct)
  case (1 s)
  show ?case
  proof (cases "trailing_space s = 0")
    case True
    then have "TrimRightSpace s = s" by (subst TrimRightSpace.simps) simp
    then show ?thesis using True "1.prems" by (simp add: trailing_space_0_iff)
  next
    case False
    then have "TrimRightSpace s = TrimRightSpace (take (length s - trailing_space s) s)"
      by (subst TrimRightSpace.simps) simp
    then show ?thesis using "1.IH" [OF False "1.prems"] by simp
  qed
qed

lemma TrimSpace_spec:
  "(\<exists>ls ts. set ls \<subseteq> set space_runes \<and> set ts \<subseteq> set space_runes \<and>
            s = concat ls @ TrimSpace s @ concat ts)
   \<and> (\<forall>w\<in>set space_runes. \<not> prefix w (TrimSpace s) \<and> \<not> suffix w (TrimSpace s))"
proof (intro conjI ballI)
  obtain ls where ls: "set ls \<subseteq> set space_runes" "s = concat ls @ TrimLeftSpace s"
    using TrimLeftSpace_spec by blast
  obtain ts where ts: "set ts \<subseteq> set space_runes"
    "TrimLeftSpace s = TrimRightSpace (TrimLeftSpace s) @ concat ts"
    using TrimRightSpace_spec by blast
  have "s = concat ls @ TrimSpace s @ concat ts"
    using ls(2) ts(2) by (simp add: TrimSpace_def)
  then show "\<exists>ls ts. set ls \<subseteq> set space_runes \<and> set ts \<subseteq> set space_runes \<and>
            s = concat ls @ TrimSpace s @ concat ts"
    using ls(1) ts(1) by blast
  fix w assume w: "w \<in> set space_runes"
  show "\<not> suffix w (TrimSpace s)"
    using TrimRightSpace_no_suffix [OF w] by (simp add: TrimSpace_def)
  show "\<not> prefix w (TrimSpace s)"
  proof
    assume p: "prefix w (TrimSpace s)"
    have "prefix (TrimSpace s) (TrimLeftSpace s)"
      using ts(2) by (metis TrimSpace_def prefixI)
    then have "prefix w (TrimLeftSpace s)" using p by (rule prefix_order.trans [rotated])
    then show False using TrimLeftSpace_no_prefix [OF w] by simp
  qed
qed

section \<open>No deadline, no network activity\<close>

text \<open>
  C10. When the context carries no deadline, \<^verbatim>\<open>Run\<close> of either package returns an error
  (the decoder's, or "context deadline is not set") and the network is as it was: nothing
  was dialled, read or written, for every decoder, configuration and network.
\<close>

theorem Run_without_deadline:
  "Run Unmarshal None config net =
     (Some (case Unmarshal config of Inl err \<Rightarrow> err | Inr conf \<Rightarrow> DeadlineNotSet), net)
   \<and> Run_ssh Unmarshal None config lnet =
     Some (Some (case Unmarshal config of Inl err \<Rightarrow> err | Inr conf \<Rightarrow> DeadlineNotSet), lnet)"
  by (simp add: Run_def Run_ssh_def split: sum.splits)

section \<open>Read errors inside the filter\<close>

text \<open>
  C7. The read of the option byte after \<^verbatim>\<open>IAC DO\<close> fails with end of file: the filter
  still writes a refusal, with the zero byte as the option, and returns true.
\<close>

theorem handleIAC_refuses_after_failed_option_read:
  "handleIAC (network None [(Some DO, None), (None, Some EOF)] []) IAC =
     (True, \<lparr>dial_result = None, inbound = [], wresults = [],
              calls = [Rd (Some DO, None), Rd (None, Some EOF), Wr [IAC, WONT, CHR 0x00] None]\<rparr>)"
  by (simp add: handleIAC_def network_def Read_def Write_def slice_after_def telnet_consts)

section \<open>Errors of the prompt matcher\<close>

text \<open>
  C6, as amended. Let the loop of \<^verbatim>\<open>readUntilAny\<close> hold the buffer \<open>buf\<close>, and let the
  bytes \<open>xs\<close> arrive one per read without completing any target. If the deadline then
  expires (no read result is left), or the next read of the loop fails and delivers
  nothing, the call returns the buffer accumulated so far, \<open>buf @ xs\<close> (empty when nothing
  was accumulated), and the error \<open>ReadError targets e\<close>, which wraps the read's error \<open>e\<close>
  and carries the target list. A failed read that delivers an application byte which
  completes no target returns the buffer with that byte and the same error. A read that
  fails inside the filter, or fails while delivering an \<^verbatim>\<open>IAC\<close>, does not end the call;
  when the reads after it fail too (the deadline has passed, the peer is gone), the next
  read of the loop returns the buffer and the wrapped error. Whatever the connection does,
  an error the call returns has that form.
\<close>

theorem readUntilAny_error_returns_partial_buffer:
  assumes "IAC \<notin> set xs"
    and "\<forall>k. 0 < k \<and> k \<le> length xs \<longrightarrow> \<not> list_ex (Contains (buf @ take k xs)) targets"
  shows "(inbound c = deliver xs \<longrightarrow>
            readUntilAny_loop targets buf c =
              ((buf @ xs, Some (ReadError targets DeadlineExceeded)),
               consumed c (deliver xs @ [(None, Some DeadlineExceeded)]) []))
       \<and> (inbound c = deliver xs @ (None, Some e) # rest \<longrightarrow>
            readUntilAny_loop targets buf c =
              ((buf @ xs, Some (ReadError targets e)),
               consumed c (deliver xs @ [(None, Some e)]) rest))
       \<and> (inbound c = deliver xs @ (Some b, Some e) # rest \<and> b \<noteq> IAC \<and>
          \<not> list_ex (Contains (buf @ xs @ [b])) targets \<longrightarrow>
            readUntilAny_loop targets buf c =
              ((buf @ xs @ [b], Some (ReadError targets e)),
               consumed c (deliver xs @ [(Some b, Some e)]) rest))
       \<and> (inbound c = deliver xs @ (Some IAC, e0) # mid @ rs \<and> failing rs \<and>
          length (inbound (snd (handleIAC
            (consumed c (deliver xs @ [(Some IAC, e0)]) (mid @ rs)) IAC))) \<le> length rs \<longrightarrow>
            (\<exists>e' c'. readUntilAny_loop targets buf c = ((buf @ xs, Some (ReadError targets e')), c')))
       \<and> (\<forall>err. snd (fst (readUntilAny_loop targets buf c)) = Some err \<longrightarrow>
            (\<exists>e'. err = ReadError targets e'))"
proof (intro conjI impI allI)
  assume inb: "inbound c = deliver xs"
  then have "inbound c = deliver xs @ []" by simp
  from loop_deliver [OF assms this]
  have "readUntilAny_loop targets buf c =
          readUntilAny_loop targets (buf @ xs) (consumed c (deliver xs) [])" .
  also have "\<dots> = ((buf @ xs, Some (ReadError targets DeadlineExceeded)),
                 consumed c (deliver xs @ [(None, Some DeadlineExceeded)]) [])"
    by (subst loop_deadline) (simp_all add: consumed_def)
  finally show "readUntilAny_loop targets buf c =
      ((buf @ xs, Some (ReadError targets DeadlineExceeded)),
       consumed c (deliver xs @ [(None, Some DeadlineExceeded)]) [])" .
next
  assume inb: "inbound c = deliver xs @ (None, Some e) # rest"
  from loop_deliver [OF assms this]
  have "readUntilAny_loop targets buf c =
          readUntilAny_loop targets (buf @ xs) (consumed c (deliver xs) ((None, Some e) # rest))" .
  also have "\<dots> = ((buf @ xs, Some (ReadError targets e)),
                 consumed c (deliver xs @ [(None, Some e)]) rest)"
    by (subst loop_error [where rest = rest]) simp_all
  finally show "readUntilAny_loop targets buf c =
      ((buf @ xs, Some (ReadError targets e)), consumed c (deliver xs @ [(None, Some e)]) rest)" .
next
  assume a: "inbound c = deliver xs @ (Some b, Some e) # rest \<and> b \<noteq> IAC \<and>
          \<not> list_ex (Contains (buf @ xs @ [b])) targets"
  then have inb: "inbound c = deliver xs @ (Some b, Some e) # rest" by simp
  from loop_deliver [OF assms inb]
  have "readUntilAny_loop targets buf c =
          readUntilAny_loop targets (buf @ xs) (consumed c (deliver xs) ((Some b, Some e) # rest))" .
  also have "\<dots> = ((buf @ xs @ [b], Some (ReadError targets e)),
                 consumed c (deliver xs @ [(Some b, Some e)]) rest)"
    using a by (subst loop_byte [where rest = rest and b = b and e = "Some e"]) simp_all
  finally show "readUntilAny_loop targets buf c =
      ((buf @ xs @ [b], Some (ReadError targets e)),
       consumed c (deliver xs @ [(Some b, Some e)]) rest)" .
next
  assume a: "inbound c = deliver xs @ (Some IAC, e0) # mid @ rs \<and> failing rs \<and>
          length (inbound (snd (handleIAC
            (consumed c (deliver xs @ [(Some IAC, e0)]) (mid @ rs)) IAC))) \<le> length rs"
  then have inb: "inbound c = deliver xs @ (Some IAC, e0) # mid @ rs" by simp
  let ?c1 = "consumed c (deliver xs) ((Some IAC, e0) # mid @ rs)"
  from loop_deliver [OF assms inb]
  have "readUntilAny_loop targets buf c = readUntilAny_loop targets (buf @ xs) ?c1" .
  moreover have "\<exists>e' c'. readUntilAny_loop targets (buf @ xs) ?c1 =
                    ((buf @ xs, Some (ReadError targets e')), c')"
    by (rule loop_filter_meets_failure [where ?e0.0 = e0 and mid = mid and rs = rs])
       (use a in simp_all)
  ultimately show "\<exists>e' c'. readUntilAny_loop targets buf c =
                     ((buf @ xs, Some (ReadError targets e')), c')"
    by simp
next
  fix err
  assume "snd (fst (readUntilAny_loop targets buf c)) = Some err"
  then show "\<exists>e'. err = ReadError targets e'" by (rule loop_error_shape)
qed

theorem readUntilAny_error_witness:
  "readUntilAny (network None (deliver ''Pass'') []) [''assword:''] =
     ((''Pass'', Some (ReadError [''assword:''] DeadlineExceeded)),
      consumed (network None (deliver ''Pass'') []) (deliver ''Pass'' @ [(None, Some DeadlineExceeded)]) [])
   \<and> readUntilAny (network None (deliver ''Pass'' @ [(None, Some EOF)]) []) [''assword:''] =
     ((''Pass'', Some (ReadError [''assword:''] EOF)),
      consumed (network None (deliver ''Pass'' @ [(None, Some EOF)]) []) (deliver ''Pass'' @ [(None, Some EOF)]) [])
   \<and> (\<exists>e' c'. readUntilAny (network None (deliver ''Pass'' @ [(Some IAC, None), (Some DO, None)]) [])
          [''assword:''] = ((''Pass'', Some (ReadError [''assword:''] e')), c'))"
proof -
  have h1: "IAC \<notin> set ''Pass''" by (simp add: IAC_def)
  have "unmatched [''assword:''] [] ''Pass''" by simp
  then have h2: "\<forall>k. 0 < k \<and> k \<le> length ''Pass'' \<longrightarrow>
      \<not> list_ex (Contains ([] @ take k ''Pass'')) [''assword:'']"
    by (simp only: unmatched_iff)
  note th = readUntilAny_error_returns_partial_buffer [OF h1 h2]
  let ?c = "network None (deliver ''Pass'' @ [(Some IAC, None), (Some DO, None)]) []"
  have a: "inbound (network None (deliver ''Pass'') []) = deliver ''Pass''"
    by (simp add: network_def)
  have b: "inbound (network None (deliver ''Pass'' @ [(None, Some EOF)]) []) =
             deliver ''Pass'' @ (None, Some EOF) # []"
    by (simp add: network_def)
  have c: "inbound ?c = deliver ''Pass'' @ (Some IAC, None) # [(Some DO, None)] @ [] \<and> failing [] \<and>
     length (inbound (snd (handleIAC
        (consumed ?c (deliver ''Pass'' @ [(Some IAC, None)]) ([(Some DO, None)] @ [])) IAC))) \<le> length ([] :: read_result list)"
    by code_simp
  show ?thesis
    using th [THEN conjunct1, rule_format, OF a] th [THEN conjunct2, THEN conjunct1, rule_format, OF b]
      th [THEN conjunct2, THEN conjunct2, THEN conjunct2, THEN conjunct1, rule_format, OF c]
    by (simp add: readUntilAny_def)
qed

text \<open>
  C6 as stated fails for a read error that the filter takes. The read of the command byte
  after an \<^verbatim>\<open>IAC\<close> fails, or the read that delivers the \<^verbatim>\<open>IAC\<close> returns an error with it,
  or the read of the option byte after \<^verbatim>\<open>IAC DO\<close> fails: no target has matched yet, the
  error is dropped, and when the following reads deliver the prompt the call returns it
  with no error.
\<close>

theorem read_error_taken_by_the_filter:
  "fst (readUntilAny
          (network None ([(Some IAC, None), (None, Some EOF)] @ deliver ''ogin:'') [])
          [''ogin:'']) = (''ogin:'', None)
   \<and> fst (readUntilAny
          (network None ([(Some IAC, Some EOF), (Some (CHR 0xF1), None)] @ deliver ''ogin:'') [])
          [''ogin:'']) = (''ogin:'', None)
   \<and> fst (readUntilAny
          (network None ([(Some IAC, None), (Some DO, None), (None, Some EOF)] @ deliver ''ogin:'') [])
          [''ogin:'']) = (''ogin:'', None)"
  by code_simp

text \<open>
  C9. The bytes \<open>xs\<close> arrive without completing a target, and the next read returns the
  byte \<open>b\<close> together with the error \<open>e\<close>. The byte is appended and the buffer scanned
  first: when the buffer now contains a target the call returns it with no error and
  \<open>e\<close> is dropped; the error is returned only when no target matches after the append.
  (The byte is an application byte: an \<^verbatim>\<open>IAC\<close> is never appended.)
\<close>

theorem readUntilAny_match_before_error:
  assumes "IAC \<notin> set xs" and "b \<noteq> IAC"
    and "\<forall>k. 0 < k \<and> k \<le> length xs \<longrightarrow> \<not> list_ex (Contains (buf @ take k xs)) targets"
    and "inbound c = deliver xs @ (Some b, Some e) # rest"
  shows "readUntilAny_loop targets buf c =
     (if list_ex (Contains (buf @ xs @ [b])) targets
      then ((buf @ xs @ [b], None), consumed c (deliver xs @ [(Some b, Some e)]) rest)
      else ((buf @ xs @ [b], Some (ReadError targets e)),
            consumed c (deliver xs @ [(Some b, Some e)]) rest))"
proof -
  from loop_deliver [OF assms(1) assms(3) assms(4)]
  have "readUntilAny_loop targets buf c =
          readUntilAny_loop targets (buf @ xs) (consumed c (deliver xs) ((Some b, Some e) # rest))" .
  also have "\<dots> =
     (if list_ex (Contains ((buf @ xs) @ [b])) targets
      then (((buf @ xs) @ [b], None), consumed c (deliver xs @ [(Some b, Some e)]) rest)
      else (((buf @ xs) @ [b], Some (ReadError targets e)),
            consumed c (deliver xs @ [(Some b, Some e)]) rest))"
    by (subst loop_byte [where rest = rest and b = b and e = "Some e"]) (simp_all add: assms(2))
  finally show ?thesis by simp
qed

theorem readUntilAny_match_before_error_witness:
  "readUntilAny (network None (deliver ''a$'' @ [(Some (CHR '' ''), Some EOF)]) []) [''$ '', ''# ''] =
     ((''a$ '', None),
      consumed (network None (deliver ''a$'' @ [(Some (CHR '' ''), Some EOF)]) [])
        (deliver ''a$'' @ [(Some (CHR '' ''), Some EOF)]) [])"
proof -
  have h1: "IAC \<notin> set ''a$''" and h2: "CHR '' '' \<noteq> IAC" by (simp_all add: IAC_def)
  have "unmatched [''$ '', ''# ''] [] ''a$''" by simp
  then have h3: "\<forall>k. 0 < k \<and> k \<le> length ''a$'' \<longrightarrow>
      \<not> list_ex (Contains ([] @ take k ''a$'')) [''$ '', ''# '']"
    by (simp only: unmatched_iff)
  have h4: "inbound (network None (deliver ''a$'' @ [(Some (CHR '' ''), Some EOF)]) []) =
              deliver ''a$'' @ (Some (CHR '' ''), Some EOF) # []"
    by (simp add: network_def)
  show ?thesis
    using readUntilAny_match_before_error [OF h1 h2 h3 h4]
    by (simp add: readUntilAny_def)
qed

section \<open>Refusals of the filter\<close>

text \<open>
  C2, as amended. The matcher reads an \<^verbatim>\<open>IAC\<close> as the next raw byte (the start of a
  control sequence), and the next two reads deliver the command \<open>cmd\<close> and the option
  \<open>x\<close>. For \<^verbatim>\<open>DO\<close> the filter makes one write, of exactly \<open>[IAC, WONT, x]\<close>, and returns
  true; the loop of \<^verbatim>\<open>readUntilAny\<close> goes on with the same buffer, so no application byte
  is forwarded. For \<^verbatim>\<open>WILL\<close> the write is \<open>[IAC, DONT, x]\<close>. For \<^verbatim>\<open>WONT\<close> and \<^verbatim>\<open>DONT\<close>
  the option byte is consumed, nothing is written and nothing is forwarded.
\<close>

theorem handleIAC_refuses_aligned_request:
  assumes "inbound c = deliver [IAC, cmd, x] @ rest"
  shows "(cmd = DO \<longrightarrow>
            handleIAC (consumed c (deliver [IAC]) (deliver [cmd, x] @ rest)) IAC =
              (True, snd (Write (consumed c (deliver [IAC, cmd, x]) rest) [IAC, WONT, x]))
          \<and> readUntilAny_loop targets buf c =
              readUntilAny_loop targets buf
                (snd (Write (consumed c (deliver [IAC, cmd, x]) rest) [IAC, WONT, x]))
          \<and> written (calls (snd (Write (consumed c (deliver [IAC, cmd, x]) rest) [IAC, WONT, x]))) =
              written (calls c) @ [[IAC, WONT, x]])
       \<and> (cmd = WILL \<longrightarrow>
            handleIAC (consumed c (deliver [IAC]) (deliver [cmd, x] @ rest)) IAC =
              (True, snd (Write (consumed c (deliver [IAC, cmd, x]) rest) [IAC, DONT, x]))
          \<and> readUntilAny_loop targets buf c =
              readUntilAny_loop targets buf
                (snd (Write (consumed c (deliver [IAC, cmd, x]) rest) [IAC, DONT, x]))
          \<and> written (calls (snd (Write (consumed c (deliver [IAC, cmd, x]) rest) [IAC, DONT, x]))) =
              written (calls c) @ [[IAC, DONT, x]])
       \<and> (cmd = WONT \<or> cmd = DONT \<longrightarrow>
            handleIAC (consumed c (deliver [IAC]) (deliver [cmd, x] @ rest)) IAC =
              (True, consumed c (deliver [IAC, cmd, x]) rest)
          \<and> readUntilAny_loop targets buf c =
              readUntilAny_loop targets buf (consumed c (deliver [IAC, cmd, x]) rest)
          \<and> written (calls (consumed c (deliver [IAC, cmd, x]) rest)) = written (calls c))"
proof -
  let ?c1 = "consumed c (deliver [IAC]) (deliver [cmd, x] @ rest)"
  let ?c2 = "consumed c (deliver [IAC, cmd, x]) rest"
  have inb: "inbound c = (Some IAC, None) # (deliver [cmd, x] @ rest)"
    using assms by (simp add: deliver_def)
  have c1: "consumed c [(Some IAC, None)] (deliver [cmd, x] @ rest) = ?c1"
    by (simp add: deliver_def)
  have inb1: "inbound ?c1 = (Some cmd, None) # (Some x, None) # rest"
    by (simp add: deliver_def)
  have rd: "Read (consumed ?c1 [(Some cmd, None)] ((Some x, None) # rest)) = ((Some x, None), ?c2)"
    by (subst Read_Cons [where r = "(Some x, None)" and rs = rest]) (simp_all add: deliver_def)
  note h = handleIAC_command [OF inb1]
  have loop: "readUntilAny_loop targets buf c = readUntilAny_loop targets buf c'"
    if "handleIAC ?c1 IAC = (True, c')" for c'
    using loop_handled [OF inb, of c' targets buf] that c1 by simp
  show ?thesis
  proof (intro conjI impI)
    assume cmd: "cmd = DO"
    show a: "handleIAC ?c1 IAC = (True, snd (Write ?c2 [IAC, WONT, x]))"
      using h rd cmd by (simp add: slice_after_def)
    show "readUntilAny_loop targets buf c = readUntilAny_loop targets buf (snd (Write ?c2 [IAC, WONT, x]))"
      by (rule loop [OF a])
    show "written (calls (snd (Write ?c2 [IAC, WONT, x]))) = written (calls c) @ [[IAC, WONT, x]]"
      by simp
  next
    assume cmd: "cmd = WILL"
    show a: "handleIAC ?c1 IAC = (True, snd (Write ?c2 [IAC, DONT, x]))"
      using h rd cmd by (simp add: slice_after_def telnet_consts)
    show "readUntilAny_loop targets buf c = readUntilAny_loop targets buf (snd (Write ?c2 [IAC, DONT, x]))"
      by (rule loop [OF a])
    show "written (calls (snd (Write ?c2 [IAC, DONT, x]))) = written (calls c) @ [[IAC, DONT, x]]"
      by simp
  next
    assume cmd: "cmd = WONT \<or> cmd = DONT"
    show a: "handleIAC ?c1 IAC = (True, ?c2)"
      using h rd cmd by (auto simp: telnet_consts)
    show "readUntilAny_loop targets buf c = readUntilAny_loop targets buf ?c2"
      by (rule loop [OF a])
    show "written (calls ?c2) = written (calls c)"
      by simp
  qed
qed

theorem handleIAC_refuses_aligned_request_witness:
  "fst (readUntilAny (network None (deliver [IAC, DO, CHR 0x01] @ deliver ''login:'') []) [''ogin:'']) =
     (''login:'', None)
   \<and> written (calls (snd (readUntilAny
         (network None (deliver [IAC, DO, CHR 0x01] @ deliver ''login:'') []) [''ogin:'']))) =
     [[IAC, WONT, CHR 0x01]]"
proof -
  let ?c = "network None (deliver [IAC, DO, CHR 0x01] @ deliver ''login:'') []"
  let ?c' = "snd (Write (consumed ?c (deliver [IAC, DO, CHR 0x01]) (deliver ''login:''))
                [IAC, WONT, CHR 0x01])"
  have inb: "inbound ?c = deliver [IAC, DO, CHR 0x01] @ deliver ''login:''"
    by (simp add: network_def)
  have "readUntilAny_loop [''ogin:''] [] ?c = readUntilAny_loop [''ogin:''] [] ?c'"
    using handleIAC_refuses_aligned_request [OF inb, of "[''ogin:'']" "[]"] by simp
  moreover have "fst (readUntilAny_loop [''ogin:''] [] ?c') = (''login:'', None)"
    by code_simp
  moreover have "written (calls (snd (readUntilAny_loop [''ogin:''] [] ?c'))) = [[IAC, WONT, CHR 0x01]]"
    by code_simp
  ultimately show ?thesis by (simp add: readUntilAny_def)
qed

text \<open>
  C2 as stated fails for a triple that does not start a control sequence. Inside a
  subnegotiation the bytes \<open>IAC DO 1\<close> are discarded and nothing is written; after
  another \<^verbatim>\<open>IAC\<close> the pair \<open>IAC IAC\<close> is consumed as a two-byte command, nothing is
  written, and \<open>DO\<close> and the option byte are forwarded as application bytes.
\<close>

theorem handleIAC_request_not_at_sequence_start:
  "Contains [IAC, SB, IAC, DO, CHR 0x01, IAC, SE] [IAC, DO, CHR 0x01]
   \<and> written (calls (snd (readUntilAny
         (network None (deliver [IAC, SB, IAC, DO, CHR 0x01, IAC, SE]) []) [''ogin:'']))) = []
   \<and> Contains [IAC, IAC, DO, CHR 0x01] [IAC, DO, CHR 0x01]
   \<and> written (calls (snd (readUntilAny
         (network None (deliver [IAC, IAC, DO, CHR 0x01]) []) [''ogin:'']))) = []
   \<and> fst (fst (readUntilAny (network None (deliver [IAC, IAC, DO, CHR 0x01]) []) [''ogin:''])) =
       [DO, CHR 0x01]"
  by code_simp

section \<open>What is sent at the password prompt\<close>

text \<open>
  C3. In \<^verbatim>\<open>Run\<close> of package telnet, let \<open>c3\<close> be the connection when the wait for the
  password prompt has matched. The next call on the connection is the write of the
  configured username followed by CR LF. The password is never used: with any other
  password in the configuration \<^verbatim>\<open>Run\<close> returns the same result and makes the same calls,
  every write included.
\<close>

theorem password_prompt_answered_with_username:
  assumes "Unmarshal config = Inr conf"
    and "DialContext net (Server conf) (Port conf) = (None, c)"
    and "readUntilAny c [''ogin:''] = ((s1, None), c1)"
    and "sendLine c1 (Username conf) = (None, c2)"
    and "readUntilAny c2 [''assword:''] = ((s2, None), c3)"
  shows "(\<exists>r evs. calls (snd (Run Unmarshal (Some deadline) config net)) =
            calls c3 @ Wr (Username conf @ CRLF) r # evs)
       \<and> (\<forall>(Unmarshal' :: string \<Rightarrow> error + Schema) p. Unmarshal' config = Inr (conf\<lparr>Password := p\<rparr>) \<longrightarrow>
            Run Unmarshal' (Some deadline) config net = Run Unmarshal (Some deadline) config net)"
proof (intro conjI allI impI)
  obtain r4 c4 where s4: "sendLine c3 (Username conf) = (r4, c4)"
    by (cases "sendLine c3 (Username conf)")
  obtain res5 c5 where s5: "readUntilAny c4 [''$ '', ''# ''] = (res5, c5)"
    by (cases "readUntilAny c4 [''$ '', ''# '']")
  obtain r6 c6 where s6: "sendLine c5 (Command conf) = (r6, c6)"
    by (cases "sendLine c5 (Command conf)")
  obtain res7 c7 where s7: "readUntilAny c6 [''$ '', ''# ''] = (res7, c7)"
    by (cases "readUntilAny c6 [''$ '', ''# '']")
  have c4: "calls c4 = calls c3 @ [Wr (Username conf @ CRLF) r4]"
    by (rule sendLine_calls [OF s4])
  have g5: "prefix (calls c4) (calls c5)" by (rule readUntilAny_grows [OF s5])
  have g6: "prefix (calls c4) (calls c6)"
    using g5 sendLine_grows [OF s6] by (rule prefix_order.trans)
  have g7: "prefix (calls c4) (calls c7)"
    using g6 readUntilAny_grows [OF s7] by (rule prefix_order.trans)
  have "snd (exchange conf c) \<in> {c4, c5, c6, c7}"
    using assms(3-5) s4 s5 s6 s7
    by (cases res5; cases res7) (auto simp: exchange_def split: option.splits)
  then have "prefix (calls c4) (calls (snd (exchange conf c)))"
    using g5 g6 g7 by auto
  then obtain evs where e: "calls (snd (exchange conf c)) = calls c4 @ evs"
    by (auto simp: prefix_def)
  have "calls (snd (Run Unmarshal (Some deadline) config net)) =
          calls (snd (exchange conf c)) @ [Close]"
    using assms(1,2) by (simp add: Run_def CloseConn_def split: prod.splits sum.splits)
  then show "\<exists>r evs. calls (snd (Run Unmarshal (Some deadline) config net)) =
            calls c3 @ Wr (Username conf @ CRLF) r # evs"
    using e c4 by simp
next
  fix Unmarshal' :: "string \<Rightarrow> error + Schema" and p
  assume "Unmarshal' config = Inr (conf\<lparr>Password := p\<rparr>)"
  then show "Run Unmarshal' (Some deadline) config net = Run Unmarshal (Some deadline) config net"
    using assms(1) by (simp add: Run_def exchange_Password split: prod.splits option.splits sum.splits)
qed

theorem password_prompt_answered_with_username_witness:
  "(\<exists>r evs. calls (snd (Run (\<lambda>_. Inr alice) (Some 0) [] scenario_A)) =
      ([Dial ''host'' 23] @ map Rd (deliver ''login:'') @ [Wr (''alice'' @ CRLF) None]
        @ map Rd (deliver ''assword:'')) @ Wr (''alice'' @ CRLF) r # evs)
   \<and> Run (\<lambda>_. Inr (alice\<lparr>Password := ''other''\<rparr>)) (Some 0) [] scenario_A =
       Run (\<lambda>_. Inr alice) (Some 0) [] scenario_A"
proof -
  let ?c = "snd (DialContext scenario_A (Server alice) (Port alice))"
  let ?c1 = "snd (readUntilAny ?c [''ogin:''])"
  let ?c2 = "snd (sendLine ?c1 (Username alice))"
  let ?c3 = "snd (readUntilAny ?c2 [''assword:''])"
  have h2: "DialContext scenario_A (Server alice) (Port alice) = (None, ?c)" by code_simp
  have h3: "readUntilAny ?c [''ogin:''] = ((''login:'', None), ?c1)" by code_simp
  have h4: "sendLine ?c1 (Username alice) = (None, ?c2)" by code_simp
  have h5: "readUntilAny ?c2 [''assword:''] = ((''assword:'', None), ?c3)" by code_simp
  have c3: "calls ?c3 = [Dial ''host'' 23] @ map Rd (deliver ''login:'') @ [Wr (''alice'' @ CRLF) None]
        @ map Rd (deliver ''assword:'')" by code_simp
  have u: "Username alice = ''alice''" by (simp add: alice_def)
  note th = password_prompt_answered_with_username
    [where Unmarshal = "\<lambda>_. Inr alice" and config = "[]" and deadline = 0, OF refl h2 h3 h4 h5]
  have t1: "\<exists>r evs. calls (snd (Run (\<lambda>_. Inr alice) (Some 0) [] scenario_A)) =
      calls ?c3 @ Wr (Username alice @ CRLF) r # evs"
    using th by (rule conjunct1)
  have t2: "Run (\<lambda>_. Inr (alice\<lparr>Password := ''other''\<rparr>)) (Some 0) [] scenario_A =
       Run (\<lambda>_. Inr alice) (Some 0) [] scenario_A"
    by (rule th [THEN conjunct2, rule_format]) (rule refl)
  show ?thesis
    using t1 [unfolded c3] t2 by (simp add: u)
qed

section \<open>The pass decisions\<close>

text \<open>
  C1. \<^verbatim>\<open>Run\<close> of package telnet returns no error exactly when the configuration decodes,
  the context has a deadline, the dial succeeds, each of the four waits and three sends
  succeeds in turn, and \<open>cmdOutput\<close>, the buffer that the wait for the shell prompt after
  the send of the command returned, contains the expected output as a substring. \<^verbatim>\<open>Run\<close>
  of package ssh returns no error exactly when both prompt loops match, the line after the
  password is read and does not contain \<open>login:\<close>, and the output the loop accumulated after
  the command, trimmed, equals the expected output, trimmed. The output loop accumulates
  the lines read up to the first failed read or the read deadline. \<open>Contains\<close> is
  containment as a contiguous substring. \<open>TrimSpace\<close> removes white space at both ends
  and nothing else: what it removes are space runes, and what it returns neither starts
  nor ends with one; the space runes are the 25 encodings listed in \<open>all_spaces\<close>. The two
  decisions differ: on the output \<open>alice\<close>, line feed, \<open>$\<close>, space and the expected output
  \<open>alice\<close> the first passes and the second fails.
\<close>

theorem pass_decisions_of_the_two_variants:
  "(fst (Run Unmarshal ctx config net) = None \<longleftrightarrow>
      (\<exists>conf d c s1 c1 c2 s2 c3 c4 s3 c5 c6 cmdOutput c7.
         Unmarshal config = Inr conf \<and> ctx = Some d \<and>
         DialContext net (Server conf) (Port conf) = (None, c) \<and>
         readUntilAny c [''ogin:''] = ((s1, None), c1) \<and>
         sendLine c1 (Username conf) = (None, c2) \<and>
         readUntilAny c2 [''assword:''] = ((s2, None), c3) \<and>
         sendLine c3 (Username conf) = (None, c4) \<and>
         readUntilAny c4 [''$ '', ''# ''] = ((s3, None), c5) \<and>
         sendLine c5 (Command conf) = (None, c6) \<and>
         readUntilAny c6 [''$ '', ''# ''] = ((cmdOutput, None), c7) \<and>
         Contains cmdOutput (ExpectedOutput conf)))
   \<and> ((\<exists>lc. Run_ssh Unmarshal ctx config lnet = Some (None, lc)) \<longleftrightarrow>
      (\<exists>conf d c c1 c2 line c3 result c4.
         Unmarshal config = Inr conf \<and> ctx = Some d \<and>
         DialTimeout lnet (Server conf) (Port conf) = (None, c) \<and>
         prompt_loop ''login:'' (Username conf) c = Some (None, c1) \<and>
         prompt_loop ''Password:'' (Password conf) c1 = Some (None, c2) \<and>
         ReadString c2 = Some ((line, None), c3) \<and>
         \<not> Contains line ''login:'' \<and>
         output_loop [] (Fprintf c3 (Command conf @ LF)) = Some (result, c4) \<and>
         TrimSpace result = TrimSpace (ExpectedOutput conf)))
   \<and> (lines lc = whole_lines ls @ rest \<and>
        (rest = [] \<or> (\<exists>l e rest'. rest = (l, Some e) # rest')) \<longrightarrow>
        (\<exists>lc'. output_loop acc lc = Some (acc @ concat ls, lc')))
   \<and> (Contains s t \<longleftrightarrow> (\<exists>ps ss. s = ps @ t @ ss))
   \<and> (\<exists>ls ts. set ls \<subseteq> set space_runes \<and> set ts \<subseteq> set space_runes \<and>
          s = concat ls @ TrimSpace s @ concat ts)
   \<and> (\<forall>w\<in>set space_runes. \<not> prefix w (TrimSpace s) \<and> \<not> suffix w (TrimSpace s))
   \<and> concat space_runes = all_spaces
   \<and> TrimSpace (all_spaces @ ''a b'' @ all_spaces) = ''a b''
   \<and> TrimSpace [CHR 0xE2, CHR 0x80, CHR 0x8B] = [CHR 0xE2, CHR 0x80, CHR 0x8B]
   \<and> Contains (''alice'' @ LF @ ''$ '') ''alice''
   \<and> TrimSpace (''alice'' @ LF @ ''$ '') = ''alice'' @ LF @ ''$''
   \<and> TrimSpace ''alice'' = ''alice''
   \<and> TrimSpace (''alice'' @ LF @ ''$ '') \<noteq> TrimSpace ''alice''"
proof (intro conjI impI)
  show "fst (Run Unmarshal ctx config net) = None \<longleftrightarrow>
      (\<exists>conf d c s1 c1 c2 s2 c3 c4 s3 c5 c6 cmdOutput c7.
         Unmarshal config = Inr conf \<and> ctx = Some d \<and>
         DialContext net (Server conf) (Port conf) = (None, c) \<and>
         readUntilAny c [''ogin:''] = ((s1, None), c1) \<and>
         sendLine c1 (Username conf) = (None, c2) \<and>
         readUntilAny c2 [''assword:''] = ((s2, None), c3) \<and>
         sendLine c3 (Username conf) = (None, c4) \<and>
         readUntilAny c4 [''$ '', ''# ''] = ((s3, None), c5) \<and>
         sendLine c5 (Command conf) = (None, c6) \<and>
         readUntilAny c6 [''$ '', ''# ''] = ((cmdOutput, None), c7) \<and>
         Contains cmdOutput (ExpectedOutput conf))"
    unfolding Run_nil_iff_exchange exchange_Inr_iff by blast
  show "(\<exists>lc. Run_ssh Unmarshal ctx config lnet = Some (None, lc)) \<longleftrightarrow>
      (\<exists>conf d c c1 c2 line c3 result c4.
         Unmarshal config = Inr conf \<and> ctx = Some d \<and>
         DialTimeout lnet (Server conf) (Port conf) = (None, c) \<and>
         prompt_loop ''login:'' (Username conf) c = Some (None, c1) \<and>
         prompt_loop ''Password:'' (Password conf) c1 = Some (None, c2) \<and>
         ReadString c2 = Some ((line, None), c3) \<and>
         \<not> Contains line ''login:'' \<and>
         output_loop [] (Fprintf c3 (Command conf @ LF)) = Some (result, c4) \<and>
         TrimSpace result = TrimSpace (ExpectedOutput conf))"
    unfolding Run_ssh_nil_iff_dialogue dialogue_Inr_iff by blast
  show "\<exists>lc'. output_loop acc lc = Some (acc @ concat ls, lc')"
    if "lines lc = whole_lines ls @ rest \<and>
        (rest = [] \<or> (\<exists>l e rest'. rest = (l, Some e) # rest'))"
    using that output_loop_collects [of lc ls rest acc] by blast
  show "Contains s t \<longleftrightarrow> (\<exists>ps ss. s = ps @ t @ ss)"
    by (simp add: Contains_iff_sublist sublist_def)
  show "\<exists>ls ts. set ls \<subseteq> set space_runes \<and> set ts \<subseteq> set space_runes \<and>
          s = concat ls @ TrimSpace s @ concat ts"
    using TrimSpace_spec [of s] by blast
  show "\<forall>w\<in>set space_runes. \<not> prefix w (TrimSpace s) \<and> \<not> suffix w (TrimSpace s)"
    using TrimSpace_spec [of s] by blast
  show "concat space_runes = all_spaces" by (simp add: space_runes_def all_spaces_def)
  show "TrimSpace (all_spaces @ ''a b'' @ all_spaces) = ''a b''" by code_simp
  show "TrimSpace [CHR 0xE2, CHR 0x80, CHR 0x8B] = [CHR 0xE2, CHR 0x80, CHR 0x8B]" by code_simp
  show "Contains (''alice'' @ LF @ ''$ '') ''alice''" by code_simp
  show "TrimSpace (''alice'' @ LF @ ''$ '') = ''alice'' @ LF @ ''$''" by code_simp
  show "TrimSpace ''alice'' = ''alice''" by code_simp
  show "TrimSpace (''alice'' @ LF @ ''$ '') \<noteq> TrimSpace ''alice''" by code_simp
qed

theorem pass_decisions_witness:
  "fst (Run (\<lambda>_. Inr alice) (Some 0) [] scenario_A) = None
   \<and> written (calls (snd (Run (\<lambda>_. Inr alice) (Some 0) [] scenario_A))) =
       [''alice'' @ CRLF, ''alice'' @ CRLF, ''whoami'' @ CRLF]
   \<and> inbound (snd (Run (\<lambda>_. Inr alice) (Some 0) [] scenario_A)) = []
   \<and> fst (Run (\<lambda>_. Inr (alice\<lparr>ExpectedOutput := ''bob''\<rparr>)) (Some 0) [] scenario_A) =
       Some (OutputMismatch (''alice'' @ LF @ ''$ ''))
   \<and> (\<exists>lc. Run_ssh (\<lambda>_. Inr alice) (Some 0) [] line_session = Some (None, lc))
   \<and> map_option (\<lambda>r. history (snd r)) (Run_ssh (\<lambda>_. Inr alice) (Some 0) [] line_session) =
       Some [LDial ''host'' 23, LRead (''login:'' @ LF, None), LWrite (''alice'' @ LF),
             LRead (''Password:'' @ LF, None), LWrite (''secret'' @ LF),
             LRead (''Welcome'' @ LF, None), LWrite (''whoami'' @ LF),
             LRead (''alice'' @ LF, None), LRead ([], Some DeadlineExceeded), LClose]
   \<and> map_option fst
         (Run_ssh (\<lambda>_. Inr (alice\<lparr>ExpectedOutput := ''ali''\<rparr>)) (Some 0) [] line_session) =
       Some (Some (UnexpectedOutput ''ali'' ''alice''))"
proof (intro conjI)
  let ?c = "snd (DialContext scenario_A (Server alice) (Port alice))"
  let ?c1 = "snd (readUntilAny ?c [''ogin:''])"
  let ?c2 = "snd (sendLine ?c1 (Username alice))"
  let ?c3 = "snd (readUntilAny ?c2 [''assword:''])"
  let ?c4 = "snd (sendLine ?c3 (Username alice))"
  let ?c5 = "snd (readUntilAny ?c4 [''$ '', ''# ''])"
  let ?c6 = "snd (sendLine ?c5 (Command alice))"
  let ?c7 = "snd (readUntilAny ?c6 [''$ '', ''# ''])"
  have h0: "DialContext scenario_A (Server alice) (Port alice) = (None, ?c)" by code_simp
  have h1: "readUntilAny ?c [''ogin:''] = ((''login:'', None), ?c1)" by code_simp
  have h2: "sendLine ?c1 (Username alice) = (None, ?c2)" by code_simp
  have h3: "readUntilAny ?c2 [''assword:''] = ((''assword:'', None), ?c3)" by code_simp
  have h4: "sendLine ?c3 (Username alice) = (None, ?c4)" by code_simp
  have h5: "readUntilAny ?c4 [''$ '', ''# ''] = ((''$ '', None), ?c5)" by code_simp
  have h6: "sendLine ?c5 (Command alice) = (None, ?c6)" by code_simp
  have h7: "readUntilAny ?c6 [''$ '', ''# ''] = ((''alice'' @ LF @ ''$ '', None), ?c7)"
    by code_simp
  have h8: "Contains (''alice'' @ LF @ ''$ '') (ExpectedOutput alice)" by code_simp
  have "\<exists>conf d c s1 c1 c2 s2 c3 c4 s3 c5 c6 cmdOutput c7.
         (\<lambda>_. Inr alice) [] = (Inr conf :: error + Schema) \<and> Some (0::nat) = Some d \<and>
         DialContext scenario_A (Server conf) (Port conf) = (None, c) \<and>
         readUntilAny c [''ogin:''] = ((s1, None), c1) \<and>
         sendLine c1 (Username conf) = (None, c2) \<and>
         readUntilAny c2 [''assword:''] = ((s2, None), c3) \<and>
         sendLine c3 (Username conf) = (None, c4) \<and>
         readUntilAny c4 [''$ '', ''# ''] = ((s3, None), c5) \<and>
         sendLine c5 (Command conf) = (None, c6) \<and>
         readUntilAny c6 [''$ '', ''# ''] = ((cmdOutput, None), c7) \<and>
         Contains cmdOutput (ExpectedOutput conf)"
    apply (intro exI conjI)
              apply (rule refl)
             apply (rule refl)
            apply (rule h0)
           apply (rule h1)
          apply (rule h2)
         apply (rule h3)
        apply (rule h4)
       apply (rule h5)
      apply (rule h6)
     apply (rule h7)
    apply (rule h8)
    done
  then show "fst (Run (\<lambda>_. Inr alice) (Some 0) [] scenario_A) = None"
    using pass_decisions_of_the_two_variants
      [where Unmarshal = "\<lambda>_. Inr alice" and ctx = "Some 0" and config = "[]" and net = scenario_A,
       THEN conjunct1]
    by (rule iffD2 [rotated])
next
  let ?c = "snd (DialTimeout line_session (Server alice) (Port alice))"
  let ?c1 = "snd (the (prompt_loop ''login:'' (Username alice) ?c))"
  let ?c2 = "snd (the (prompt_loop ''Password:'' (Password alice) ?c1))"
  let ?c3 = "snd (the (ReadString ?c2))"
  let ?c4 = "snd (the (output_loop [] (Fprintf ?c3 (Command alice @ LF))))"
  have h0: "DialTimeout line_session (Server alice) (Port alice) = (None, ?c)" by code_simp
  have h1: "prompt_loop ''login:'' (Username alice) ?c = Some (None, ?c1)" by code_simp
  have h2: "prompt_loop ''Password:'' (Password alice) ?c1 = Some (None, ?c2)" by code_simp
  have h3: "ReadString ?c2 = Some ((''Welcome'' @ LF, None), ?c3)" by code_simp
  have h4: "\<not> Contains (''Welcome'' @ LF) ''login:''" by code_simp
  have h5: "output_loop [] (Fprintf ?c3 (Command alice @ LF)) = Some (''alice'' @ LF, ?c4)"
    by code_simp
  have h6: "TrimSpace (''alice'' @ LF) = TrimSpace (ExpectedOutput alice)" by code_simp
  have "\<exists>conf d c c1 c2 line c3 result c4.
         (\<lambda>_. Inr alice) [] = (Inr conf :: error + Schema) \<and> Some (0::nat) = Some d \<and>
         DialTimeout line_session (Server conf) (Port conf) = (None, c) \<and>
         prompt_loop ''login:'' (Username conf) c = Some (None, c1) \<and>
         prompt_loop ''Password:'' (Password conf) c1 = Some (None, c2) \<and>
         ReadString c2 = Some ((line, None), c3) \<and>
         \<not> Contains line ''login:'' \<and>
         output_loop [] (Fprintf c3 (Command conf @ LF)) = Some (result, c4) \<and>
         TrimSpace result = TrimSpace (ExpectedOutput conf)"
    apply (intro exI conjI)
            apply (rule refl)
           apply (rule refl)
          apply (rule h0)
         apply (rule h1)
        apply (rule h2)
       apply (rule h3)
      apply (rule h4)
     apply (rule h5)
    apply (rule h6)
    done
  then show "\<exists>lc. Run_ssh (\<lambda>_. Inr alice) (Some 0) [] line_session = Some (None, lc)"
    using pass_decisions_of_the_two_variants
      [where Unmarshal = "\<lambda>_. Inr alice" and ctx = "Some 0" and config = "[]"
         and lnet = line_session, THEN conjunct2, THEN conjunct1]
    by (rule iffD2 [rotated])
qed code_simp+

section \<open>The line after the password\<close>

text \<open>
  C8. In \<^verbatim>\<open>Run\<close> of package ssh, let \<open>c2\<close> be the connection when the second prompt loop
  has matched: the last call was the write of the password and a line feed. Let the next
  read return the line \<open>line\<close> with no error. If the line contains \<open>login:\<close> the probe
  returns the error "Login failed"; after that one read only the deferred close follows, so
  the command is never sent. Otherwise the call after that one read is the write of the
  command and a line feed.
\<close>

theorem one_line_after_password:
  assumes "Unmarshal config = Inr conf"
    and "DialTimeout lnet (Server conf) (Port conf) = (None, c)"
    and "prompt_loop ''login:'' (Username conf) c = Some (None, c1)"
    and "prompt_loop ''Password:'' (Password conf) c1 = Some (None, c2)"
    and "lines c2 = (line, None) # rest"
  shows "(\<exists>pre. history c2 = pre @ [LWrite (Password conf @ LF)])
       \<and> (Contains line ''login:'' \<longrightarrow>
            Run_ssh Unmarshal (Some deadline) config lnet =
              Some (Some LoginFailed,
                    c2\<lparr>lines := rest, history := history c2 @ [LRead (line, None), LClose]\<rparr>))
       \<and> (\<not> Contains line ''login:'' \<longrightarrow>
            (\<exists>res final evs.
               Run_ssh Unmarshal (Some deadline) config lnet = Some (res, final) \<and>
               history final =
                 history c2 @ LRead (line, None) # LWrite (Command conf @ LF) # evs))"
proof (intro conjI impI)
  show "\<exists>pre. history c2 = pre @ [LWrite (Password conf @ LF)]"
    by (rule prompt_loop_sends [OF assms(4)])
next
  let ?c3 = "c2\<lparr>lines := rest, history := history c2 @ [LRead (line, None)]\<rparr>"
  have rd: "ReadString c2 = Some ((line, None), ?c3)"
    by (rule ReadString_Cons [OF assms(5)])
  assume "Contains line ''login:''"
  then have "dialogue conf c = Some (Inl LoginFailed, ?c3)"
    using assms(3,4) rd by (simp add: dialogue_def)
  then show "Run_ssh Unmarshal (Some deadline) config lnet =
      Some (Some LoginFailed,
            c2\<lparr>lines := rest, history := history c2 @ [LRead (line, None), LClose]\<rparr>)"
    using assms(1,2) by (simp add: Run_ssh_def CloseLine_def)
next
  let ?c3 = "c2\<lparr>lines := rest, history := history c2 @ [LRead (line, None)]\<rparr>"
  let ?c4 = "Fprintf ?c3 (Command conf @ LF)"
  have rd: "ReadString c2 = Some ((line, None), ?c3)"
    by (rule ReadString_Cons [OF assms(5)])
  assume no: "\<not> Contains line ''login:''"
  obtain result c5 where o: "output_loop [] ?c4 = Some (result, c5)"
    and p: "prefix (history ?c4) (history c5)"
    using output_loop_returns [of "[]" ?c4] by blast
  have d: "dialogue conf c = Some (Inr result, c5)"
    using assms(3,4) rd no o by (simp add: dialogue_def)
  obtain evs where e: "history c5 = history ?c4 @ evs"
    using p by (auto simp: prefix_def)
  have "\<exists>res. Run_ssh Unmarshal (Some deadline) config lnet = Some (res, CloseLine c5)"
    using assms(1,2) d by (simp add: Run_ssh_def Let_def)
  moreover have "history (CloseLine c5) =
      history c2 @ LRead (line, None) # LWrite (Command conf @ LF) # (evs @ [LClose])"
    using e by (simp add: CloseLine_def Fprintf_def)
  ultimately show "\<exists>res final evs.
      Run_ssh Unmarshal (Some deadline) config lnet = Some (res, final) \<and>
      history final = history c2 @ LRead (line, None) # LWrite (Command conf @ LF) # evs"
    by blast
qed

theorem one_line_after_password_witness:
  "Run_ssh (\<lambda>_. Inr alice) (Some 0) [] scenario_D =
     Some (Some LoginFailed,
           \<lparr>dial_outcome = None, lines = [], read_deadline = False,
              history = [LDial ''host'' 23, LRead (''login:'' @ LF, None), LWrite (''alice'' @ LF),
                         LRead (''Password:'' @ LF, None), LWrite (''secret'' @ LF),
                         LRead (''login:'' @ LF, None), LClose]\<rparr>)
   \<and> (\<exists>res final evs.
         Run_ssh (\<lambda>_. Inr alice) (Some 0) [] line_session = Some (res, final) \<and>
         history final =
           [LDial ''host'' 23, LRead (''login:'' @ LF, None), LWrite (''alice'' @ LF),
            LRead (''Password:'' @ LF, None), LWrite (''secret'' @ LF)]
           @ LRead (''Welcome'' @ LF, None) # LWrite (''whoami'' @ LF) # evs)"
proof
  let ?c = "snd (DialTimeout scenario_D (Server alice) (Port alice))"
  let ?c1 = "snd (the (prompt_loop ''login:'' (Username alice) ?c))"
  let ?c2 = "snd (the (prompt_loop ''Password:'' (Password alice) ?c1))"
  have h2: "DialTimeout scenario_D (Server alice) (Port alice) = (None, ?c)" by code_simp
  have h3: "prompt_loop ''login:'' (Username alice) ?c = Some (None, ?c1)" by code_simp
  have h4: "prompt_loop ''Password:'' (Password alice) ?c1 = Some (None, ?c2)" by code_simp
  have h5: "lines ?c2 = (''login:'' @ LF, None) # []" by code_simp
  have m: "Contains (''login:'' @ LF) ''login:''" by code_simp
  have e: "?c2\<lparr>lines := [], history := history ?c2 @ [LRead (''login:'' @ LF, None), LClose]\<rparr> =
     \<lparr>dial_outcome = None, lines = [], read_deadline = False,
        history = [LDial ''host'' 23, LRead (''login:'' @ LF, None), LWrite (''alice'' @ LF),
                   LRead (''Password:'' @ LF, None), LWrite (''secret'' @ LF),
                   LRead (''login:'' @ LF, None), LClose]\<rparr>"
    by code_simp
  note th = one_line_after_password
    [where Unmarshal = "\<lambda>_. Inr alice" and config = "[]" and deadline = 0, OF refl h2 h3 h4 h5]
  show "Run_ssh (\<lambda>_. Inr alice) (Some 0) [] scenario_D =
     Some (Some LoginFailed,
           \<lparr>dial_outcome = None, lines = [], read_deadline = False,
              history = [LDial ''host'' 23, LRead (''login:'' @ LF, None), LWrite (''alice'' @ LF),
                         LRead (''Password:'' @ LF, None), LWrite (''secret'' @ LF),
                         LRead (''login:'' @ LF, None), LClose]\<rparr>)"
    using th [THEN conjunct2, THEN conjunct1, rule_format, OF m] unfolding e .
next
  let ?c = "snd (DialTimeout line_session (Server alice) (Port alice))"
  let ?c1 = "snd (the (prompt_loop ''login:'' (Username alice) ?c))"
  let ?c2 = "snd (the (prompt_loop ''Password:'' (Password alice) ?c1))"
  have h2: "DialTimeout line_session (Server alice) (Port alice) = (None, ?c)" by code_simp
  have h3: "prompt_loop ''login:'' (Username alice) ?c = Some (None, ?c1)" by code_simp
  have h4: "prompt_loop ''Password:'' (Password alice) ?c1 = Some (None, ?c2)" by code_simp
  have h5: "lines ?c2 = (''Welcome'' @ LF, None) # [(''alice'' @ LF, None)]" by code_simp
  have m: "\<not> Contains (''Welcome'' @ LF) ''login:''" by code_simp
  have e: "history ?c2 =
           [LDial ''host'' 23, LRead (''login:'' @ LF, None), LWrite (''alice'' @ LF),
            LRead (''Password:'' @ LF, None), LWrite (''secret'' @ LF)]"
    by code_simp
  have cmd: "Command alice = ''whoami''" by (simp add: alice_def)
  note th = one_line_after_password
    [where Unmarshal = "\<lambda>_. Inr alice" and config = "[]" and deadline = 0, OF refl h2 h3 h4 h5]
  show "\<exists>res final evs.
         Run_ssh (\<lambda>_. Inr alice) (Some 0) [] line_session = Some (res, final) \<and>
         history final =
           [LDial ''host'' 23, LRead (''login:'' @ LF, None), LWrite (''alice'' @ LF),
            LRead (''Password:'' @ LF, None), LWrite (''secret'' @ LF)]
           @ LRead (''Welcome'' @ LF, None) # LWrite (''whoami'' @ LF) # evs"
    using th [THEN conjunct2, THEN conjunct2, rule_format, OF m] unfolding e cmd .
qed

section \<open>The buffer of a wait\<close>




section \<open>The first match\<close>




section \<open>Further properties of the probe\<close>

text \<open>
  X1. The filter reports a byte as handled exactly when it is \<^verbatim>\<open>IAC\<close>; any other byte is
  left to the caller and the connection is not touched.
\<close>

theorem handleIAC_handles_exactly_IAC:
  "handleIAC c b = (if b = IAC then (True, snd (handleIAC c b)) else (False, c))"
  by (auto simp: handleIAC_def Let_def split: prod.splits option.splits)

text \<open>
  X2. When the read of the command byte after an \<^verbatim>\<open>IAC\<close> fails (or the deadline has
  expired), the filter returns true after that one read: it writes nothing and the error
  is not passed on.
\<close>

theorem handleIAC_swallows_command_read_error:
  "(inbound c = (bo, Some e) # rest \<longrightarrow> handleIAC c IAC = (True, consumed c [(bo, Some e)] rest))
   \<and> (inbound c = [] \<longrightarrow>
        handleIAC c IAC = (True, consumed c [(None, Some DeadlineExceeded)] []))"
  by (auto simp: handleIAC_def Read_def consumed_def)

theorem handleIAC_swallows_command_read_error_witness:
  "handleIAC (network None [(None, Some EOF), (Some (CHR ''x''), None)] []) IAC =
     (True, \<lparr>dial_result = None, inbound = [(Some (CHR ''x''), None)], wresults = [],
              calls = [Rd (None, Some EOF)]\<rparr>)"
proof -
  have "inbound (network None [(None, Some EOF), (Some (CHR ''x''), None)] []) =
          (None, Some EOF) # [(Some (CHR ''x''), None)]"
    by (simp add: network_def)
  from handleIAC_swallows_command_read_error [THEN conjunct1, rule_format, OF this]
  show ?thesis by (simp add: consumed_def network_def)
qed

text \<open>
  X3. A failed dial is reported at once: the dial is the only call made, so no wait was
  attempted and no byte was sent.
\<close>

theorem dial_failure_reported_first:
  assumes "Unmarshal config = Inr conf" and "dial_result net = Some e"
  shows "Run Unmarshal (Some deadline) config net =
           (Some (DialError (Server conf) (Port conf) e),
            net\<lparr>calls := calls net @ [Dial (Server conf) (Port conf)]\<rparr>)"
  using assms by (simp add: Run_def DialContext_def)

theorem dial_failure_reported_first_witness:
  "Run (\<lambda>_. Inr alice) (Some 0) [] (network (Some ConnReset) (deliver ''login:'') []) =
     (Some (DialError ''host'' 23 ConnReset),
      \<lparr>dial_result = Some ConnReset, inbound = deliver ''login:'', wresults = [],
         calls = [Dial ''host'' 23]\<rparr>)"
proof -
  have "dial_result (network (Some ConnReset) (deliver ''login:'') []) = Some ConnReset"
    by (simp add: network_def)
  from dial_failure_reported_first [where Unmarshal = "\<lambda>_. Inr alice" and config = "[]", OF refl this, of 0]
  show ?thesis by (simp add: alice_def network_def)
qed

text \<open>
  X4. After a successful dial, \<^verbatim>\<open>Run\<close> of package telnet closes the connection on every
  path: whatever the peer sends and whatever fails, the last call is the close.
\<close>

theorem Run_closes_the_connection:
  assumes "Unmarshal config = Inr conf" and "dial_result net = None"
  shows "\<exists>evs. calls (snd (Run Unmarshal (Some deadline) config net)) =
           calls net @ Dial (Server conf) (Port conf) # evs @ [Close]"
proof -
  let ?c = "net\<lparr>calls := calls net @ [Dial (Server conf) (Port conf)]\<rparr>"
  obtain res c' where x: "exchange conf ?c = (res, c')" by (cases "exchange conf ?c")
  have g: "prefix (calls ?c) (calls c')"
  proof -
    obtain r1 c1 where s1: "readUntilAny ?c [''ogin:''] = (r1, c1)"
      by (cases "readUntilAny ?c [''ogin:'']")
    obtain r2 c2 where s2: "sendLine c1 (Username conf) = (r2, c2)"
      by (cases "sendLine c1 (Username conf)")
    obtain r3 c3 where s3: "readUntilAny c2 [''assword:''] = (r3, c3)"
      by (cases "readUntilAny c2 [''assword:'']")
    obtain r4 c4 where s4: "sendLine c3 (Username conf) = (r4, c4)"
      by (cases "sendLine c3 (Username conf)")
    obtain r5 c5 where s5: "readUntilAny c4 [''$ '', ''# ''] = (r5, c5)"
      by (cases "readUntilAny c4 [''$ '', ''# '']")
    obtain r6 c6 where s6: "sendLine c5 (Command conf) = (r6, c6)"
      by (cases "sendLine c5 (Command conf)")
    obtain r7 c7 where s7: "readUntilAny c6 [''$ '', ''# ''] = (r7, c7)"
      by (cases "readUntilAny c6 [''$ '', ''# '']")
    have g1: "prefix (calls ?c) (calls c1)" by (rule readUntilAny_grows [OF s1])
    have g2: "prefix (calls ?c) (calls c2)"
      using g1 sendLine_grows [OF s2] by (rule prefix_order.trans)
    have g3: "prefix (calls ?c) (calls c3)"
      using g2 readUntilAny_grows [OF s3] by (rule prefix_order.trans)
    have g4: "prefix (calls ?c) (calls c4)"
      using g3 sendLine_grows [OF s4] by (rule prefix_order.trans)
    have g5: "prefix (calls ?c) (calls c5)"
      using g4 readUntilAny_grows [OF s5] by (rule prefix_order.trans)
    have g6: "prefix (calls ?c) (calls c6)"
      using g5 sendLine_grows [OF s6] by (rule prefix_order.trans)
    have g7: "prefix (calls ?c) (calls c7)"
      using g6 readUntilAny_grows [OF s7] by (rule prefix_order.trans)
    have "c' \<in> {c1, c2, c3, c4, c5, c6, c7}"
      using x s1 s2 s3 s4 s5 s6 s7
      by (cases r1; cases r3; cases r5; cases r7)
         (auto simp: exchange_def split: option.splits)
    then show ?thesis using g1 g2 g3 g4 g5 g6 g7 by auto
  qed
  then obtain evs where "calls c' = calls ?c @ evs" by (auto simp: prefix_def)
  moreover have "calls (snd (Run Unmarshal (Some deadline) config net)) = calls c' @ [Close]"
    using assms x by (simp add: Run_def DialContext_def CloseConn_def split: sum.splits)
  ultimately show ?thesis by simp
qed

theorem Run_closes_the_connection_witness:
  "\<exists>evs. calls (snd (Run (\<lambda>_. Inr alice) (Some 0) [] scenario_A)) =
           [] @ Dial ''host'' 23 # evs @ [Close]"
proof -
  have "dial_result scenario_A = None" by (simp add: scenario_A_def network_def)
  from Run_closes_the_connection [where Unmarshal = "\<lambda>_. Inr alice" and config = "[]", OF refl this, of 0]
  show ?thesis by (simp add: alice_def scenario_A_def network_def)
qed

text \<open>
  X5. Scenario B: the result is the error of the wait for the password prompt, the
  connection is closed, and only the username was written.
\<close>

theorem scenario_B_password_prompt_timeout:
  "fst (Run (\<lambda>_. Inr alice) (Some 0) [] scenario_B) =
     Some (PasswordPromptError (ReadError [''assword:''] DeadlineExceeded))
   \<and> last (calls (snd (Run (\<lambda>_. Inr alice) (Some 0) [] scenario_B))) = Close
   \<and> written (calls (snd (Run (\<lambda>_. Inr alice) (Some 0) [] scenario_B))) = [''alice'' @ CRLF]"
  by code_simp

text \<open>
  X6. Scenario E: with an empty expected output and no output before the read deadline,
  the plain-line probe passes.
\<close>

theorem scenario_E_empty_output_passes:
  "map_option fst (Run_ssh (\<lambda>_. Inr (alice\<lparr>ExpectedOutput := []\<rparr>)) (Some 0) [] scenario_E) =
     Some None"
  by code_simp

end
